theory Spec2Isabelle
  imports Main "HOL-Library.Word" "HOL-Library.AList"
begin

section \<open>Data model of lib/blockchain/chaindb.js\<close>

text \<open>
  Buffers are byte lists, hashes are 32-byte buffers, JavaScript numbers (heights, counters,
  amounts) are integers. Every throwing operation returns the error together with the
  state it leaves behind, because the object's fields survive a throw.
\<close>

type_synonym bytes = "8 word list"
type_synonym hash = bytes

definition ZERO_HASH :: hash where
  "ZERO_HASH = replicate 32 0"

datatype error =
    Error string
  | AssertionError string
  | EncodingError
  | TypeError
  | RangeError
  | IOError

text \<open>The covenant types, numbered in the order of the enumeration.\<close>

definition types_NONE :: nat where "types_NONE = 0"
definition types_CLAIM :: nat where "types_CLAIM = 1"
definition types_OPEN :: nat where "types_OPEN = 2"
definition types_BID :: nat where "types_BID = 3"
definition types_REVEAL :: nat where "types_REVEAL = 4"
definition types_REDEEM :: nat where "types_REDEEM = 5"
definition types_REGISTER :: nat where "types_REGISTER = 6"
definition types_UPDATE :: nat where "types_UPDATE = 7"
definition types_RENEW :: nat where "types_RENEW = 8"
definition types_TRANSFER :: nat where "types_TRANSFER = 9"
definition types_FINALIZE :: nat where "types_FINALIZE = 10"
definition types_REVOKE :: nat where "types_REVOKE = 11"

record covenant =
  ctype :: nat
  citems :: "bytes list"

record txoutput =
  o_value :: int
  o_address :: "hash option"
  o_covenant :: covenant
  o_unspendable :: bool

record outpoint =
  op_hash :: hash
  op_index :: nat

text \<open>
  A transaction with the results of \<open>hash()\<close> and \<open>isCoinbase()\<close>; \<open>tx_bits\<close> are
  the bitfield positions of the airdrop and claim proofs that a coinbase redeems.
\<close>

record tx =
  tx_hash :: hash
  tx_inputs :: "outpoint list"
  tx_outputs :: "txoutput list"
  tx_coinbase :: bool
  tx_bits :: "nat list"

record block =
  b_hash :: hash
  b_txs :: "tx list"

record chainentry =
  e_hash :: hash
  e_prevBlock :: hash
  e_height :: int
  e_treeRoot :: hash

text \<open>
  Modelled from the spec: ChainEntry (lib/blockchain/chainentry.js is not among the
  sources). \<open>isGenesis()\<close> tests the height of the entry, \<open>height === 0\<close>.
\<close>

definition isGenesis :: "chainentry \<Rightarrow> bool" where
  "isGenesis e = (e_height e = 0)"

record coinentry =
  ce_output :: txoutput
  ce_height :: int
  ce_coinbase :: bool
  ce_spent :: bool

subsection \<open>Records: ChainState, TreeState, ChainFlags, StateCache\<close>

record chainstate =
  cs_tip :: hash
  cs_tx :: int
  cs_coin :: int
  cs_value :: int
  cs_burned :: int
  cs_committed :: bool

record treestate =
  ts_treeRoot :: hash
  ts_commitHeight :: int
  ts_compactionRoot :: hash
  ts_compactionHeight :: int
  ts_committed :: bool

record chainflags =
  fl_network :: nat
  fl_spv :: bool
  fl_prune :: bool
  fl_indexTX :: bool
  fl_indexAddress :: bool

record namestate =
  ns_nameHash :: hash
  ns_data :: bytes

subsection \<open>Key-value store\<close>

text \<open>One constructor per table of the layout.\<close>

datatype key =
    K_V | K_O | K_R | K_s | K_D | K_f
  | K_h hash
  | K_H int
  | K_e hash
  | K_n hash
  | K_p hash
  | K_c hash nat
  | K_t hash
  | K_T hash hash
  | K_C hash hash nat
  | K_v nat hash
  | K_w int

text \<open>
  A stored value is either raw bytes written by chaindb.js itself (version, heights,
  hashes, the deployment table, the empty value) or the encoding of a record, kept as
  the record it encodes: equal records have equal encodings.
\<close>

datatype dbval =
    VBytes bytes
  | VNull
  | VEntry chainentry
  | VState hash int int int int
  | VTree hash int hash int
  | VFlags chainflags
  | VCoin coinentry
  | VField "nat \<Rightarrow> bool"
  | VNameUndo "(hash \<times> bytes) list"
  | VMeta tx hash int nat

text \<open>
  The store is a finite table, so that its key ranges can be listed; \<open>db_get\<close> is
  the lookup.
\<close>

type_synonym kvstore = "(key \<times> dbval) list"

definition db_get :: "kvstore \<Rightarrow> key \<Rightarrow> dbval option" where
  "db_get m k = map_of m k"

definition db_put :: "key \<Rightarrow> dbval \<Rightarrow> kvstore \<Rightarrow> kvstore" where
  "db_put k v m = AList.update k v m"

definition db_del :: "key \<Rightarrow> kvstore \<Rightarrow> kvstore" where
  "db_del k m = AList.delete k m"


datatype batch_op = Put key dbval | Del key

fun apply_op :: "kvstore \<Rightarrow> batch_op \<Rightarrow> kvstore" where
  "apply_op m (Put k v) = db_put k v m"
| "apply_op m (Del k) = db_del k m"

definition batch_apply :: "batch_op list \<Rightarrow> kvstore \<Rightarrow> kvstore" where
  "batch_apply ops m = foldl apply_op m ops"

subsection \<open>Blob store\<close>

text \<open>
  Modelled from the spec: the blob store (lib/blockstore is not among the sources), with
  \<open>writeBlock\<close>, \<open>readBlock\<close>, \<open>writeUndo\<close>, \<open>readUndo\<close>, \<open>pruneBlock\<close>,
  \<open>pruneUndo\<close>, batched via \<open>batch / commitWrites / commitPrunes / clear\<close>. A blob
  is kept as the block or the undo coins it encodes.
\<close>

record blockstore =
  bs_blocks :: "hash \<Rightarrow> block option"
  bs_undo :: "hash \<Rightarrow> coinentry list option"

datatype blob_op =
    WriteBlock hash block
  | WriteUndo hash "coinentry list"
  | PruneBlock hash
  | PruneUndo hash

fun apply_blob :: "blockstore \<Rightarrow> blob_op \<Rightarrow> blockstore" where
  "apply_blob st (WriteBlock h b) = st\<lparr>bs_blocks := (bs_blocks st)(h \<mapsto> b)\<rparr>"
| "apply_blob st (WriteUndo h u) = st\<lparr>bs_undo := (bs_undo st)(h \<mapsto> u)\<rparr>"
| "apply_blob st (PruneBlock h) = st\<lparr>bs_blocks := (bs_blocks st)(h := None)\<rparr>"
| "apply_blob st (PruneUndo h) = st\<lparr>bs_undo := (bs_undo st)(h := None)\<rparr>"

record blobbatch =
  bb_writes :: "blob_op list"
  bb_prunes :: "blob_op list"

definition empty_blobbatch :: blobbatch where
  "empty_blobbatch = \<lparr>bb_writes = [], bb_prunes = []\<rparr>"

subsection \<open>LRU caches with a staged batch\<close>

text \<open>
  The entry caches: most recently used first, bounded by the capacity. \<open>start\<close> opens
  a batch of staged operations, \<open>push\<close> and \<open>unpush\<close> stage a set and a removal,
  \<open>commit\<close> applies the staged operations and \<open>drop\<close> forgets them.
\<close>

datatype ('k, 'v) lru_op = LruSet 'k 'v | LruRemove 'k

record ('k, 'v) lru =
  lru_items :: "('k \<times> 'v) list"
  lru_capacity :: nat
  lru_pending :: "('k, 'v) lru_op list option"

definition lru_get :: "('k, 'v) lru \<Rightarrow> 'k \<Rightarrow> 'v option \<times> ('k, 'v) lru" where
  "lru_get c k =
     (if lru_capacity c = 0 then (None, c)
      else case map_of (lru_items c) k of
          None \<Rightarrow> (None, c)
        | Some v \<Rightarrow> (Some v, c\<lparr>lru_items := (k, v) # filter (\<lambda>kv. fst kv \<noteq> k) (lru_items c)\<rparr>))"

definition lru_has :: "('k, 'v) lru \<Rightarrow> 'k \<Rightarrow> bool" where
  "lru_has c k = (lru_capacity c \<noteq> 0 \<and> map_of (lru_items c) k \<noteq> None)"

definition lru_set :: "('k, 'v) lru \<Rightarrow> 'k \<Rightarrow> 'v \<Rightarrow> ('k, 'v) lru" where
  "lru_set c k v =
     (if lru_capacity c = 0 then c
      else c\<lparr>lru_items := take (lru_capacity c) ((k, v) # filter (\<lambda>kv. fst kv \<noteq> k) (lru_items c))\<rparr>)"

definition lru_remove :: "('k, 'v) lru \<Rightarrow> 'k \<Rightarrow> ('k, 'v) lru" where
  "lru_remove c k =
     (if lru_capacity c = 0 then c
      else c\<lparr>lru_items := filter (\<lambda>kv. fst kv \<noteq> k) (lru_items c)\<rparr>)"

definition lru_start :: "('k, 'v) lru \<Rightarrow> ('k, 'v) lru" where
  "lru_start c = c\<lparr>lru_pending := Some []\<rparr>"

definition lru_push :: "('k, 'v) lru \<Rightarrow> 'k \<Rightarrow> 'v \<Rightarrow> ('k, 'v) lru" where
  "lru_push c k v =
     (if lru_capacity c = 0 then c
      else c\<lparr>lru_pending := map_option (\<lambda>ops. ops @ [LruSet k v]) (lru_pending c)\<rparr>)"

definition lru_unpush :: "('k, 'v) lru \<Rightarrow> 'k \<Rightarrow> ('k, 'v) lru" where
  "lru_unpush c k =
     (if lru_capacity c = 0 then c
      else c\<lparr>lru_pending := map_option (\<lambda>ops. ops @ [LruRemove k]) (lru_pending c)\<rparr>)"

definition lru_drop :: "('k, 'v) lru \<Rightarrow> ('k, 'v) lru" where
  "lru_drop c = c\<lparr>lru_pending := None\<rparr>"

fun lru_apply :: "('k, 'v) lru \<Rightarrow> ('k, 'v) lru_op \<Rightarrow> ('k, 'v) lru" where
  "lru_apply c (LruSet k v) = lru_set c k v"
| "lru_apply c (LruRemove k) = lru_remove c k"

definition lru_commit :: "('k, 'v) lru \<Rightarrow> ('k, 'v) lru" where
  "lru_commit c =
     (foldl lru_apply c (case lru_pending c of None \<Rightarrow> [] | Some ops \<Rightarrow> ops))\<lparr>lru_pending := None\<rparr>"

subsection \<open>StateCache\<close>

text \<open>
  Modelled from the spec: StateCache (lib/blockchain/records.js is not among the sources)
  holds the versionbit state per (bit, block hash) and accumulates \<open>updates\<close> during a
  batch; \<open>commit\<close> flushes the updates, \<open>drop\<close> rolls them back.
\<close>

record cacheupdate =
  cu_bit :: nat
  cu_hash :: hash
  cu_state :: nat

record statecache =
  sc_bits :: "(nat \<times> hash) \<Rightarrow> nat option"
  sc_updates :: "cacheupdate list"

definition sc_commit :: "statecache \<Rightarrow> statecache" where
  "sc_commit c = c\<lparr>sc_updates := []\<rparr>"

definition sc_drop :: "statecache \<Rightarrow> statecache" where
  "sc_drop c =
     \<lparr>sc_bits = foldl (\<lambda>m u. m((cu_bit u, cu_hash u) := None)) (sc_bits c) (sc_updates c),
      sc_updates = []\<rparr>"

subsection \<open>ChainState and TreeState methods\<close>

text \<open>
  Modelled from the spec: ChainState and TreeState (lib/blockchain/records.js is not among
  the sources). ChainState holds the tip, the cumulative tx, coin, value and burned counters
  and a committed flag; a clone is a fresh, uncommitted copy; \<open>commit\<close> sets the tip,
  marks the record committed and returns its encoding. \<open>add\<close> and \<open>spend\<close> credit and
  debit one coin and its value, \<open>burn\<close> and \<open>unburn\<close> one coin and its burned value,
  \<open>connect\<close> and \<open>disconnect\<close> the transaction count of a block.
\<close>

definition cs_clone :: "chainstate \<Rightarrow> chainstate" where
  "cs_clone st = st\<lparr>cs_committed := False\<rparr>"

definition cs_connect :: "chainstate \<Rightarrow> block \<Rightarrow> chainstate" where
  "cs_connect st b = st\<lparr>cs_tx := cs_tx st + int (length (b_txs b))\<rparr>"

definition cs_disconnect :: "chainstate \<Rightarrow> block \<Rightarrow> chainstate" where
  "cs_disconnect st b = st\<lparr>cs_tx := cs_tx st - int (length (b_txs b))\<rparr>"

definition cs_add :: "chainstate \<Rightarrow> txoutput \<Rightarrow> chainstate" where
  "cs_add st out = st\<lparr>cs_coin := cs_coin st + 1, cs_value := cs_value st + o_value out\<rparr>"

definition cs_spend :: "chainstate \<Rightarrow> txoutput \<Rightarrow> chainstate" where
  "cs_spend st out = st\<lparr>cs_coin := cs_coin st - 1, cs_value := cs_value st - o_value out\<rparr>"

definition cs_burn :: "chainstate \<Rightarrow> txoutput \<Rightarrow> chainstate" where
  "cs_burn st out = st\<lparr>cs_coin := cs_coin st + 1, cs_burned := cs_burned st + o_value out\<rparr>"

definition cs_unburn :: "chainstate \<Rightarrow> txoutput \<Rightarrow> chainstate" where
  "cs_unburn st out = st\<lparr>cs_coin := cs_coin st - 1, cs_burned := cs_burned st - o_value out\<rparr>"

definition cs_encode :: "chainstate \<Rightarrow> dbval" where
  "cs_encode st = VState (cs_tip st) (cs_tx st) (cs_coin st) (cs_value st) (cs_burned st)"

definition cs_commit :: "chainstate \<Rightarrow> hash \<Rightarrow> dbval \<times> chainstate" where
  "cs_commit st h =
     (let st' = st\<lparr>cs_tip := h, cs_committed := True\<rparr> in (cs_encode st', st'))"

definition ts_clone :: "treestate \<Rightarrow> treestate" where
  "ts_clone st = st\<lparr>ts_committed := False\<rparr>"

definition ts_encode :: "treestate \<Rightarrow> dbval" where
  "ts_encode st =
     VTree (ts_treeRoot st) (ts_commitHeight st) (ts_compactionRoot st) (ts_compactionHeight st)"

definition ts_commit :: "treestate \<Rightarrow> hash \<Rightarrow> int \<Rightarrow> dbval \<times> treestate" where
  "ts_commit st root height =
     (let st' = st\<lparr>ts_treeRoot := root, ts_commitHeight := height, ts_committed := True\<rparr>
      in (ts_encode st', st'))"

definition ts_compact :: "treestate \<Rightarrow> hash \<Rightarrow> int \<Rightarrow> treestate" where
  "ts_compact st root height = st\<lparr>ts_compactionRoot := root, ts_compactionHeight := height\<rparr>"

section \<open>The ChainDB object\<close>

record chain_options =
  opt_network :: nat
  opt_spv :: bool
  opt_prune :: bool
  opt_indexTX :: bool
  opt_indexAddress :: bool

record deployment =
  dep_bit :: nat
  dep_startTime :: int
  dep_timeout :: int
  dep_threshold :: int
  dep_window :: int

record network =
  genesis_hash :: hash
  keepBlocks :: int
  pruneAfterHeight :: int
  treeInterval :: int
  deploys :: "deployment list"

text \<open>
  The methods of NameState (lib/covenants/namestate.js is not among the sources) are
  parameters of the model: decoding and encoding, the null test, \<open>reset\<close>,
  \<open>maybeExpire\<close>, \<open>applyState\<close> and the recorded delta, and the root hash the authenticated tree computes
  for the content of a transaction.
\<close>

record namerules =
  nsr_new :: namestate
  nsr_decode :: "bytes \<Rightarrow> error + namestate"
  nsr_encode :: "namestate \<Rightarrow> bytes"
  nsr_isNull :: "namestate \<Rightarrow> bool"
  nsr_reset :: "namestate \<Rightarrow> int \<Rightarrow> namestate"
  nsr_maybeExpire :: "namestate \<Rightarrow> int \<Rightarrow> network \<Rightarrow> namestate"
  nsr_applyState :: "namestate \<Rightarrow> bytes \<Rightarrow> namestate"
  nsr_delta :: "namestate \<Rightarrow> bytes option"
  nsr_rootOf :: "(hash \<Rightarrow> bytes option) \<Rightarrow> hash"

text \<open>
  The outcome of one durable write: it succeeds, or it throws after some of the operations
  of a blob batch have reached the disk (a key-value batch is atomic). The script lists the
  outcomes of the writes to come; when it is exhausted every write succeeds.
\<close>

datatype io_outcome = IoOk | IoFail nat

text \<open>The effects of a commit, logged in the order in which they happen.\<close>

datatype effect =
    BlobWritesCommitted
  | KVBatchWritten
  | StateSwapped
  | TreeStateSwapped
  | CacheHashCommitted
  | CacheHeightCommitted
  | StateCacheCommitted
  | BlobPrunesCommitted

record chaindb =
  options :: chain_options
  network :: network
  namerules :: namerules
  db :: kvstore
  blocks :: "blockstore option"
  tree_root :: hash
  tree_roots :: "hash list"
  txn :: "hash \<Rightarrow> bytes option"
  treeState :: treestate
  stateCache :: statecache
  state :: chainstate
  bitfield :: "nat \<Rightarrow> bool"
  pending :: "chainstate option"
  pendingTreeState :: "treestate option"
  current :: "batch_op list option"
  blocksBatch :: "blobbatch option"
  cacheHash :: "(hash, chainentry) lru"
  cacheHeight :: "(int, chainentry) lru"
  io_script :: "io_outcome list"
  effects :: "effect list"

type_synonym 'a res = "(error + 'a) \<times> chaindb"

definition bindE :: "'a res \<Rightarrow> ('a \<Rightarrow> chaindb \<Rightarrow> 'b res) \<Rightarrow> 'b res" where
  "bindE m f = (case m of (Inl e, s) \<Rightarrow> (Inl e, s) | (Inr a, s) \<Rightarrow> f a s)"

definition thenE :: "unit res \<Rightarrow> (chaindb \<Rightarrow> 'b res) \<Rightarrow> 'b res" where
  "thenE m f = bindE m (\<lambda>_. f)"

definition io_next :: "chaindb \<Rightarrow> io_outcome \<times> chaindb" where
  "io_next s =
     ((case io_script s of [] \<Rightarrow> IoOk | r # rs \<Rightarrow> r), s\<lparr>io_script := tl (io_script s)\<rparr>)"

subsection \<open>Batch coordinator: start, put, del, drop, commit\<close>

definition start :: "chaindb \<Rightarrow> unit res" where
  "start s =
     (if current s \<noteq> None then (Inl (AssertionError ''current''), s)
      else if pending s \<noteq> None then (Inl (AssertionError ''pending''), s)
      else
        (Inr (),
         s\<lparr>current := Some [],
           pending := Some (cs_clone (state s)),
           pendingTreeState := Some (ts_clone (treeState s)),
           blocksBatch := (if blocks s \<noteq> None then Some empty_blobbatch else blocksBatch s),
           cacheHash := lru_start (cacheHash s),
           cacheHeight := lru_start (cacheHeight s)\<rparr>))"

definition put :: "key \<Rightarrow> dbval \<Rightarrow> chaindb \<Rightarrow> unit res" where
  "put k v s =
     (case current s of
        None \<Rightarrow> (Inl (AssertionError ''current''), s)
      | Some ops \<Rightarrow> (Inr (), s\<lparr>current := Some (ops @ [Put k v])\<rparr>))"

definition del :: "key \<Rightarrow> chaindb \<Rightarrow> unit res" where
  "del k s =
     (case current s of
        None \<Rightarrow> (Inl (AssertionError ''current''), s)
      | Some ops \<Rightarrow> (Inr (), s\<lparr>current := Some (ops @ [Del k])\<rparr>))"

definition drop_batch :: "chaindb \<Rightarrow> unit res" where
  "drop_batch s =
     (if current s = None then (Inl (AssertionError ''current''), s)
      else if pending s = None then (Inl (AssertionError ''pending''), s)
      else if pendingTreeState s = None then (Inl (AssertionError ''pendingTreeState''), s)
      else if blocks s \<noteq> None \<and> blocksBatch s = None then (Inl (AssertionError ''blocksBatch''), s)
      else
        (Inr (),
         s\<lparr>current := None,
           pending := None,
           pendingTreeState := None,
           blocksBatch := None,
           cacheHash := lru_drop (cacheHash s),
           cacheHeight := lru_drop (cacheHeight s),
           stateCache := sc_drop (stateCache s)\<rparr>))"

text \<open>The steps of \<open>commit\<close>; each performs its effect and logs it.\<close>

definition blocks_commitWrites :: "chaindb \<Rightarrow> unit res" where
  "blocks_commitWrites s =
     (case blocksBatch s of
        None \<Rightarrow> (Inl TypeError, s)
      | Some bb \<Rightarrow>
          (case io_next s of
             (IoFail n, s1) \<Rightarrow>
               (Inl IOError,
                s1\<lparr>blocks := map_option (\<lambda>st. foldl apply_blob st (take n (bb_writes bb))) (blocks s1)\<rparr>)
           | (IoOk, s1) \<Rightarrow>
               (Inr (),
                s1\<lparr>blocks := map_option (\<lambda>st. foldl apply_blob st (bb_writes bb)) (blocks s1),
                   effects := effects s1 @ [BlobWritesCommitted]\<rparr>)))"

definition current_write :: "chaindb \<Rightarrow> unit res" where
  "current_write s =
     (case current s of
        None \<Rightarrow> (Inl TypeError, s)
      | Some ops \<Rightarrow>
          (case io_next s of
             (IoFail n, s1) \<Rightarrow> (Inl IOError, s1)
           | (IoOk, s1) \<Rightarrow>
               (Inr (), s1\<lparr>db := batch_apply ops (db s1), effects := effects s1 @ [KVBatchWritten]\<rparr>)))"

definition swap_state :: "chainstate \<Rightarrow> chaindb \<Rightarrow> chaindb" where
  "swap_state p s = s\<lparr>state := p, effects := effects s @ [StateSwapped]\<rparr>"

definition swap_treeState :: "treestate \<Rightarrow> chaindb \<Rightarrow> chaindb" where
  "swap_treeState p s = s\<lparr>treeState := p, effects := effects s @ [TreeStateSwapped]\<rparr>"

definition cacheHash_commit :: "chaindb \<Rightarrow> chaindb" where
  "cacheHash_commit s =
     s\<lparr>cacheHash := lru_commit (cacheHash s), effects := effects s @ [CacheHashCommitted]\<rparr>"

definition cacheHeight_commit :: "chaindb \<Rightarrow> chaindb" where
  "cacheHeight_commit s =
     s\<lparr>cacheHeight := lru_commit (cacheHeight s), effects := effects s @ [CacheHeightCommitted]\<rparr>"

definition stateCache_commit :: "chaindb \<Rightarrow> chaindb" where
  "stateCache_commit s =
     s\<lparr>stateCache := sc_commit (stateCache s), effects := effects s @ [StateCacheCommitted]\<rparr>"

definition blocks_commitPrunes :: "chaindb \<Rightarrow> unit res" where
  "blocks_commitPrunes s =
     (case blocksBatch s of
        None \<Rightarrow> (Inl TypeError, s)
      | Some bb \<Rightarrow>
          (case io_next s of
             (IoFail n, s1) \<Rightarrow>
               (Inl IOError,
                s1\<lparr>blocks := map_option (\<lambda>st. foldl apply_blob st (take n (bb_prunes bb))) (blocks s1)\<rparr>)
           | (IoOk, s1) \<Rightarrow>
               (Inr (),
                s1\<lparr>blocks := map_option (\<lambda>st. foldl apply_blob st (bb_prunes bb)) (blocks s1),
                   effects := effects s1 @ [BlobPrunesCommitted]\<rparr>)))"

text \<open>The \<open>try\<close> block of \<open>commit\<close>: the blob writes, then the key-value batch.\<close>

definition commit_try :: "chaindb \<Rightarrow> unit res" where
  "commit_try s =
     thenE (if blocks s \<noteq> None then blocks_commitWrites s else (Inr (), s)) current_write"

definition commit_catch :: "chaindb \<Rightarrow> chaindb" where
  "commit_catch s =
     s\<lparr>current := None,
       pending := None,
       pendingTreeState := None,
       cacheHash := lru_drop (cacheHash s),
       cacheHeight := lru_drop (cacheHeight s),
       blocksBatch := None\<rparr>"

definition commit_swap :: "chaindb \<Rightarrow> chaindb res" where
  "commit_swap s =
     (case pending s of
        None \<Rightarrow> (Inl TypeError, s)
      | Some p \<Rightarrow>
          (let s1 = (if cs_committed p then swap_state p s else s) in
           case pendingTreeState s1 of
             None \<Rightarrow> (Inl TypeError, s1)
           | Some pt \<Rightarrow>
               (let s2 = (if ts_committed pt then swap_treeState pt s1 else s1)
                in (Inr s2, s2))))"

definition commit :: "chaindb \<Rightarrow> unit res" where
  "commit s =
     (if current s = None then (Inl (AssertionError ''current''), s)
      else if pending s = None then (Inl (AssertionError ''pending''), s)
      else if pendingTreeState s = None then (Inl (AssertionError ''pendingTreeState''), s)
      else
        (case commit_try s of
           (Inl e, s1) \<Rightarrow> (Inl e, commit_catch s1)
         | (Inr _, s1) \<Rightarrow>
             bindE (commit_swap s1) (\<lambda>_ s2.
               let s3 = s2\<lparr>current := None, pending := None, pendingTreeState := None\<rparr>;
                   s4 = stateCache_commit (cacheHeight_commit (cacheHash_commit s3))
               in if blocks s4 \<noteq> None then blocks_commitPrunes s4 else (Inr (), s4))))"

section \<open>Read API\<close>

text \<open>
  The raw tables hold buffers; a record value stands for its encoding, which only its own
  decoder reads.
\<close>

definition buffer_of :: "dbval \<Rightarrow> bytes" where
  "buffer_of v = (case v of VBytes b \<Rightarrow> b | _ \<Rightarrow> [])"

definition le32 :: "bytes \<Rightarrow> int" where
  "le32 b = uint (b ! 0) + 256 * uint (b ! 1) + 65536 * uint (b ! 2) + 16777216 * uint (b ! 3)"

definition readUInt32LE :: "bytes \<Rightarrow> error + int" where
  "readUInt32LE b = (if length b < 4 then Inl RangeError else Inr (le32 b))"

definition u32le :: "int \<Rightarrow> bytes" where
  "u32le n = [word_of_int n, word_of_int (n div 256), word_of_int (n div 65536),
              word_of_int (n div 16777216)]"

definition fromU32 :: "int \<Rightarrow> error + bytes" where
  "fromU32 n = (if 0 \<le> n \<and> n < 4294967296 then Inr (u32le n) else Inl RangeError)"

text \<open>A block is named by its hash or by its height.\<close>

datatype blockid = ById hash | ByHeight int

definition getHeight :: "blockid \<Rightarrow> chaindb \<Rightarrow> int res" where
  "getHeight b s =
     (case b of
        ByHeight n \<Rightarrow> (Inr n, s)
      | ById h \<Rightarrow>
          if h = ZERO_HASH then (Inr (- 1), s)
          else
            (case lru_get (cacheHash s) h of
               (Some e, c) \<Rightarrow> (Inr (e_height e), s\<lparr>cacheHash := c\<rparr>)
             | (None, c) \<Rightarrow>
                 (case db_get (db s) (K_h h) of
                    None \<Rightarrow> (Inr (- 1), s)
                  | Some v \<Rightarrow>
                      (case readUInt32LE (buffer_of v) of
                         Inl e \<Rightarrow> (Inl e, s)
                       | Inr n \<Rightarrow> (Inr n, s)))))"

definition getHash :: "blockid \<Rightarrow> chaindb \<Rightarrow> hash option \<times> chaindb" where
  "getHash b s =
     (case b of
        ById h \<Rightarrow> (Some h, s)
      | ByHeight n \<Rightarrow>
          if n < 0 then (None, s)
          else
            (case lru_get (cacheHeight s) n of
               (Some e, c) \<Rightarrow> (Some (e_hash e), s\<lparr>cacheHeight := c\<rparr>)
             | (None, c) \<Rightarrow> (map_option buffer_of (db_get (db s) (K_H n)), s)))"

definition getEntryByHash :: "hash \<Rightarrow> chaindb \<Rightarrow> chainentry option res" where
  "getEntryByHash h s =
     (if h = ZERO_HASH then (Inr None, s)
      else
        (case lru_get (cacheHash s) h of
           (Some e, c) \<Rightarrow> (Inr (Some e), s\<lparr>cacheHash := c\<rparr>)
         | (None, c) \<Rightarrow>
             (case db_get (db s) (K_e h) of
                None \<Rightarrow> (Inr None, s)
              | Some (VEntry e) \<Rightarrow>
                  (Inr (Some e), s\<lparr>cacheHash := lru_set (cacheHash s) (e_hash e) e\<rparr>)
              | Some _ \<Rightarrow> (Inl EncodingError, s))))"

definition getEntryByHeight :: "int \<Rightarrow> chaindb \<Rightarrow> chainentry option res" where
  "getEntryByHeight n s =
     (if n < 0 then (Inr None, s)
      else
        (case lru_get (cacheHeight s) n of
           (Some e, c) \<Rightarrow> (Inr (Some e), s\<lparr>cacheHeight := c\<rparr>)
         | (None, c) \<Rightarrow>
             (case db_get (db s) (K_H n) of
                None \<Rightarrow> (Inr None, s)
              | Some v \<Rightarrow>
                  bindE (getEntryByHash (buffer_of v) s) (\<lambda>r s1.
                    case r of
                      None \<Rightarrow> (Inr None, s1)
                    | Some e \<Rightarrow>
                        (Inr (Some e),
                         s1\<lparr>cacheHeight := lru_set (cacheHeight s1) (e_height e) e\<rparr>)))))"

definition getEntry :: "blockid \<Rightarrow> chaindb \<Rightarrow> chainentry option res" where
  "getEntry b s =
     (case b of
        ByHeight n \<Rightarrow> getEntryByHeight n s
      | ById h \<Rightarrow> getEntryByHash h s)"

definition getPrevious :: "chainentry \<Rightarrow> chaindb \<Rightarrow> chainentry option res" where
  "getPrevious e s = getEntryByHash (e_prevBlock e) s"

definition getNextHash :: "hash \<Rightarrow> chaindb \<Rightarrow> hash option" where
  "getNextHash h s = map_option buffer_of (db_get (db s) (K_n h))"

definition getNext :: "chainentry \<Rightarrow> chaindb \<Rightarrow> chainentry option res" where
  "getNext e s =
     (case getNextHash (e_hash e) s of
        None \<Rightarrow> (Inr None, s)
      | Some h \<Rightarrow> getEntryByHash h s)"

definition isMainChain :: "chainentry \<Rightarrow> chaindb \<Rightarrow> bool \<times> chaindb" where
  "isMainChain e s =
     (if isGenesis e then (True, s)
      else if e_hash e = cs_tip (state s) then (True, s)
      else
        (case lru_get (cacheHeight s) (e_height e) of
           (Some c, ch) \<Rightarrow> (e_hash e = e_hash c, s\<lparr>cacheHeight := ch\<rparr>)
         | (None, ch) \<Rightarrow> (getNextHash (e_hash e) s \<noteq> None, s)))"

definition getTip :: "chaindb \<Rightarrow> chainentry option res" where
  "getTip s = getEntryByHash (cs_tip (state s)) s"

definition getFlags :: "chaindb \<Rightarrow> error + chainflags option" where
  "getFlags s =
     (case db_get (db s) K_O of
        None \<Rightarrow> Inr None
      | Some (VFlags f) \<Rightarrow> Inr (Some f)
      | Some _ \<Rightarrow> Inl EncodingError)"

definition getTips :: "chaindb \<Rightarrow> hash list" where
  "getTips s =
     concat (map (\<lambda>k. case k of K_p h \<Rightarrow> [h] | _ \<Rightarrow> []) (map fst (db s)))"

definition getBlock :: "hash \<Rightarrow> chaindb \<Rightarrow> error + block option" where
  "getBlock h s =
     (if opt_spv (options s) then Inr None
      else
        (case blocks s of
           None \<Rightarrow> Inl TypeError
         | Some st \<Rightarrow> Inr (bs_blocks st h)))"

definition getUndoCoins :: "hash \<Rightarrow> chaindb \<Rightarrow> error + coinentry list" where
  "getUndoCoins h s =
     (case blocks s of
        None \<Rightarrow> Inl TypeError
      | Some st \<Rightarrow>
          (case bs_undo st h of
             None \<Rightarrow> Inr []
           | Some u \<Rightarrow> Inr u))"

subsection \<open>Name state\<close>

text \<open>A JavaScript \<open>null\<close> result is \<open>None\<close>.\<close>

definition getNameState :: "hash \<Rightarrow> chaindb \<Rightarrow> error + namestate option" where
  "getNameState nameHash s =
     (case txn s nameHash of
        None \<Rightarrow> Inr None
      | Some raw \<Rightarrow>
          (case nsr_decode (namerules s) raw of
             Inl e \<Rightarrow> Inl e
           | Inr ns \<Rightarrow> Inr (Some (ns\<lparr>ns_nameHash := nameHash\<rparr>))))"

definition getNameStatus :: "hash \<Rightarrow> int \<Rightarrow> chaindb \<Rightarrow> error + namestate option" where
  "getNameStatus nameHash height s =
     (if \<not> (0 \<le> height \<and> height < 4294967296) then Inl (AssertionError ''height'')
      else
        (case getNameState nameHash s of
           Inl e \<Rightarrow> Inl e
         | Inr None \<Rightarrow> Inr (Some (nsr_reset (namerules s) (nsr_new (namerules s)) height))
         | Inr (Some ns) \<Rightarrow>
             Inr (Some (nsr_maybeExpire (namerules s) ns height (network s)))))"

subsection \<open>Scanning the main chain\<close>

text \<open>
  The bloom filter and the iterator belong to the caller: \<open>test\<close> is
  \<open>tx.testAndMaybeUpdate(filter)\<close>, which may update the filter, and \<open>iter\<close> runs on the
  caller's own state and may throw. The walk may go on forever on a store whose \<open>n\<close>
  records form a cycle, so its result is optional.
\<close>

fun scan_txs :: "('f \<Rightarrow> tx \<Rightarrow> bool \<times> 'f) \<Rightarrow> tx list \<Rightarrow> 'f \<Rightarrow> tx list \<times> 'f" where
  "scan_txs test [] filt = ([], filt)"
| "scan_txs test (t # ts) filt =
     (case test filt t of
        (matched, filt1) \<Rightarrow>
          (case scan_txs test ts filt1 of
             (txs, filt2) \<Rightarrow> ((if matched then t # txs else txs), filt2)))"

partial_function (option) scan_loop ::
  "('f \<Rightarrow> tx \<Rightarrow> bool \<times> 'f) \<Rightarrow> ('a \<Rightarrow> chainentry \<Rightarrow> tx list \<Rightarrow> error + 'a) \<Rightarrow>
   chainentry option \<Rightarrow> 'f \<Rightarrow> 'a \<Rightarrow> nat \<Rightarrow> chaindb \<Rightarrow>
   ((error + ('f \<times> 'a \<times> nat)) \<times> chaindb) option"
where
  "scan_loop test iter entry filt acc visited s =
     (case entry of
        None \<Rightarrow> Some (Inr (filt, acc, visited), s)
      | Some e \<Rightarrow>
          (case getBlock (e_hash e) s of
             Inl err \<Rightarrow> Some (Inl err, s)
           | Inr None \<Rightarrow>
               if \<not> opt_spv (options s) \<and> \<not> opt_prune (options s)
               then Some (Inl (Error ''Block not found.''), s)
               else
                 (case iter acc e [] of
                    Inl err \<Rightarrow> Some (Inl err, s)
                  | Inr acc1 \<Rightarrow>
                      (case getNext e s of
                         (Inl err, s1) \<Rightarrow> Some (Inl err, s1)
                       | (Inr nxt, s1) \<Rightarrow> scan_loop test iter nxt filt acc1 (visited + 1) s1))
           | Inr (Some b) \<Rightarrow>
               (case scan_txs test (b_txs b) filt of
                  (txs, filt1) \<Rightarrow>
                    (case iter acc e txs of
                       Inl err \<Rightarrow> Some (Inl err, s)
                     | Inr acc1 \<Rightarrow>
                         (case getNext e s of
                            (Inl err, s1) \<Rightarrow> Some (Inl err, s1)
                          | (Inr nxt, s1) \<Rightarrow>
                              scan_loop test iter nxt filt1 acc1 (visited + 1) s1)))))"

definition scan ::
  "('f \<Rightarrow> tx \<Rightarrow> bool \<times> 'f) \<Rightarrow> ('a \<Rightarrow> chainentry \<Rightarrow> tx list \<Rightarrow> error + 'a) \<Rightarrow>
   blockid option \<Rightarrow> 'f \<Rightarrow> 'a \<Rightarrow> chaindb \<Rightarrow> ((error + ('f \<times> 'a \<times> nat)) \<times> chaindb) option"
where
  "scan test iter start0 filt acc s =
     (let start1 = (case start0 of None \<Rightarrow> ById (genesis_hash (network s)) | Some b \<Rightarrow> b) in
      case getEntry start1 s of
        (Inl err, s1) \<Rightarrow> Some (Inl err, s1)
      | (Inr None, s1) \<Rightarrow> Some (Inr (filt, acc, 0), s1)
      | (Inr (Some entry), s1) \<Rightarrow>
          (case isMainChain entry s1 of
             (False, s2) \<Rightarrow> Some (Inl (Error ''Cannot rescan an alternate chain.''), s2)
           | (True, s2) \<Rightarrow> scan_loop test iter (Some entry) filt acc 0 s2))"

section \<open>Flags, deployments and pruning\<close>

text \<open>A write that goes to the store directly, outside the current batch.\<close>

definition db_write :: "batch_op list \<Rightarrow> chaindb \<Rightarrow> unit res" where
  "db_write ops s =
     (case io_next s of
        (IoFail n, s1) \<Rightarrow> (Inl IOError, s1)
      | (IoOk, s1) \<Rightarrow> (Inr (), s1\<lparr>db := batch_apply ops (db s1)\<rparr>))"

definition flags_fromOptions :: "chain_options \<Rightarrow> chainflags" where
  "flags_fromOptions opts =
     \<lparr>fl_network = opt_network opts, fl_spv = opt_spv opts, fl_prune = opt_prune opts,
      fl_indexTX = opt_indexTX opts, fl_indexAddress = opt_indexAddress opts\<rparr>"

definition writeFlags :: "batch_op list \<Rightarrow> chaindb \<Rightarrow> batch_op list" where
  "writeFlags b s = b @ [Put K_O (VFlags (flags_fromOptions (options s)))]"

definition saveFlags :: "chaindb \<Rightarrow> unit res" where
  "saveFlags s = db_write (writeFlags [] s) s"

subsection \<open>The deployment table\<close>





definition encode_deployment :: "deployment \<Rightarrow> bytes" where
  "encode_deployment d =
     [of_nat (dep_bit d)] @ u32le (dep_startTime d) @ u32le (dep_timeout d)
       @ u32le (dep_threshold d) @ u32le (dep_window d)"

definition encode_deployments :: "network \<Rightarrow> bytes" where
  "encode_deployments net =
     of_nat (length (deploys net)) # concat (map encode_deployment (deploys net))"

definition writeDeployments :: "batch_op list \<Rightarrow> chaindb \<Rightarrow> batch_op list" where
  "writeDeployments b s = b @ [Put K_D (VBytes (encode_deployments (network s)))]"

definition saveDeployments :: "chaindb \<Rightarrow> unit res" where
  "saveDeployments s = db_write (writeDeployments [] s) s"






subsection \<open>Retroactive pruning\<close>

definition blobbatch_commit :: "blobbatch \<Rightarrow> chaindb \<Rightarrow> unit res" where
  "blobbatch_commit bb s =
     (case io_next s of
        (IoFail n, s1) \<Rightarrow>
          (Inl IOError,
           s1\<lparr>blocks := map_option (\<lambda>st. foldl apply_blob st (take n (bb_writes bb @ bb_prunes bb)))
                          (blocks s1)\<rparr>)
      | (IoOk, s1) \<Rightarrow>
          (Inr (),
           s1\<lparr>blocks := map_option (\<lambda>st. foldl apply_blob st (bb_writes bb @ bb_prunes bb))
                          (blocks s1)\<rparr>))"

text \<open>The loop of \<open>prune\<close> over the heights from \<open>start\<close> to \<open>end\<close>.\<close>

fun prune_loop :: "int list \<Rightarrow> blobbatch \<Rightarrow> chaindb \<Rightarrow> blobbatch res" where
  "prune_loop [] bb s = (Inr bb, s)"
| "prune_loop (i # rest) bb s =
     (case getHash (ByHeight i) s of
        (None, s1) \<Rightarrow> (Inl (Error ''Cannot find hash.''), s1)
      | (Some h, s1) \<Rightarrow>
          prune_loop rest (bb\<lparr>bb_prunes := bb_prunes bb @ [PruneBlock h, PruneUndo h]\<rparr>) s1)"

definition prune_flag :: "chaindb \<Rightarrow> unit res" where
  "prune_flag s =
     (let s1 = s\<lparr>options := (options s)\<lparr>opt_prune := True\<rparr>\<rparr>;
          flags = flags_fromOptions (options s1)
      in case (if \<not> fl_prune flags then (Inl (AssertionError ''flags.prune''), s1)
               else db_write [Put K_O (VFlags flags)] s1) of
           (Inl e, s2) \<Rightarrow> (Inl e, s2\<lparr>options := (options s2)\<lparr>opt_prune := False\<rparr>\<rparr>)
         | (Inr u, s2) \<Rightarrow> (Inr u, s2))"

definition prune :: "chaindb \<Rightarrow> bool res" where
  "prune s =
     (if opt_spv (options s) then (Inl (AssertionError ''Cannot prune chain in SPV mode.''), s)
      else
        (case getFlags s of
           Inl e \<Rightarrow> (Inl e, s)
         | Inr None \<Rightarrow> (Inl TypeError, s)
         | Inr (Some flags) \<Rightarrow>
             if fl_prune flags then (Inl (Error ''Chain is already pruned.''), s)
             else
               bindE (getHeight (ById (cs_tip (state s))) s) (\<lambda>height s1.
                 if height \<le> pruneAfterHeight (network s1) + keepBlocks (network s1)
                 then (Inr False, s1)
                 else
                   (let start_h = pruneAfterHeight (network s1) + 1;
                        end_h = height - keepBlocks (network s1)
                    in case blocks s1 of
                         None \<Rightarrow> (Inl TypeError, s1)
                       | Some st \<Rightarrow>
                           bindE (prune_loop [start_h..end_h] empty_blobbatch s1) (\<lambda>bb s2.
                             bindE (blobbatch_commit bb s2) (\<lambda>_ s3.
                               bindE (prune_flag s3) (\<lambda>_ s4. (Inr True, s4))))))))"

section \<open>UTXO and name-state application\<close>

subsection \<open>Loops that stop at the first throw\<close>

fun forE :: "('x \<Rightarrow> chaindb \<Rightarrow> unit res) \<Rightarrow> 'x list \<Rightarrow> chaindb \<Rightarrow> unit res" where
  "forE f [] s = (Inr (), s)"
| "forE f (x # xs) s = thenE (f x s) (forE f xs)"

fun foldE :: "('x \<Rightarrow> 'c \<Rightarrow> chaindb \<Rightarrow> 'c res) \<Rightarrow> 'x list \<Rightarrow> 'c \<Rightarrow> chaindb \<Rightarrow> 'c res" where
  "foldE f [] a s = (Inr a, s)"
| "foldE f (x # xs) a s = bindE (f x a s) (foldE f xs)"

definition run_op :: "batch_op \<Rightarrow> chaindb \<Rightarrow> unit res" where
  "run_op x s = (case x of Put k v \<Rightarrow> put k v s | Del k \<Rightarrow> del k s)"

definition with_pending :: "(chainstate \<Rightarrow> chainstate) \<Rightarrow> chaindb \<Rightarrow> unit res" where
  "with_pending f s =
     (case pending s of
        None \<Rightarrow> (Inl TypeError, s)
      | Some p \<Rightarrow> (Inr (), s\<lparr>pending := Some (f p)\<rparr>))"

definition blocksBatch_write :: "blob_op \<Rightarrow> chaindb \<Rightarrow> unit res" where
  "blocksBatch_write x s =
     (case blocksBatch s of
        None \<Rightarrow> (Inl TypeError, s)
      | Some bb \<Rightarrow> (Inr (), s\<lparr>blocksBatch := Some (bb\<lparr>bb_writes := bb_writes bb @ [x]\<rparr>)\<rparr>))"

definition blocksBatch_prune :: "blob_op \<Rightarrow> chaindb \<Rightarrow> unit res" where
  "blocksBatch_prune x s =
     (case blocksBatch s of
        None \<Rightarrow> (Inl TypeError, s)
      | Some bb \<Rightarrow> (Inr (), s\<lparr>blocksBatch := Some (bb\<lparr>bb_prunes := bb_prunes bb @ [x]\<rparr>)\<rparr>))"

subsection \<open>Covenants\<close>

text \<open>
  Modelled from the spec: the covenant accessors (lib/covenants/rules.js and
  lib/primitives/covenant.js are not among the sources). \<open>REGISTER..REVOKE\<close> is the locked
  range; \<open>getU32\<close> reads the covenant's u32 item at an index and fails when there is none.
\<close>

definition isRegister :: "covenant \<Rightarrow> bool" where
  "isRegister c = (ctype c = types_REGISTER)"

definition isClaim :: "covenant \<Rightarrow> bool" where
  "isClaim c = (ctype c = types_CLAIM)"

definition locked :: "covenant \<Rightarrow> bool" where
  "locked c = (ctype c \<ge> types_REGISTER \<and> ctype c \<le> types_REVOKE)"

definition getU32 :: "covenant \<Rightarrow> nat \<Rightarrow> error + int" where
  "getU32 c i =
     (if i < length (citems c) \<and> length (citems c ! i) = 4 then Inr (le32 (citems c ! i))
      else Inl (AssertionError ''covenant item''))"

subsection \<open>CoinView, UndoCoins and the bitfield delta\<close>

text \<open>
  Modelled from the spec: CoinView and UndoCoins (lib/coins is not among the sources). A
  view is a working set: a map from outpoint to coin entry with a spent flag, held per
  transaction hash and output index as \<open>saveView\<close> walks it; an undo log of the coins a
  block has spent, the last spent first to be re-applied; a map from name hash to name
  state; and a bitfield delta. \<open>removeTX\<close> puts the spendable outputs of a transaction
  into the view as spent coins, \<open>undo_apply\<close> takes the next undo coin and adds it to the
  view under the outpoint it restores. An encoded coin does not carry the spent flag.
\<close>

record coinview =
  v_map :: "(hash \<times> (nat \<times> coinentry) list) list"
  v_undo :: "coinentry list"
  v_names :: "(hash \<times> namestate) list"
  v_bits :: "(nat \<times> bool) list"

definition new_CoinView :: coinview where
  "new_CoinView = \<lparr>v_map = [], v_undo = [], v_names = [], v_bits = []\<rparr>"

definition ce_encode :: "coinentry \<Rightarrow> coinentry" where
  "ce_encode c = c\<lparr>ce_spent := False\<rparr>"

definition view_getEntry :: "coinview \<Rightarrow> outpoint \<Rightarrow> coinentry option" where
  "view_getEntry v p =
     (case map_of (v_map v) (op_hash p) of
        None \<Rightarrow> None
      | Some coins \<Rightarrow> map_of coins (op_index p))"

definition view_getOutput :: "coinview \<Rightarrow> outpoint \<Rightarrow> txoutput option" where
  "view_getOutput v p = map_option ce_output (view_getEntry v p)"

definition view_addEntry :: "coinview \<Rightarrow> outpoint \<Rightarrow> coinentry \<Rightarrow> coinview" where
  "view_addEntry v p c =
     (let coins = (case map_of (v_map v) (op_hash p) of None \<Rightarrow> [] | Some cs \<Rightarrow> cs)
      in v\<lparr>v_map := AList.update (op_hash p) (AList.update (op_index p) c coins) (v_map v)\<rparr>)"

definition coins_fromTX :: "tx \<Rightarrow> int \<Rightarrow> (nat \<times> coinentry) list" where
  "coins_fromTX t height =
     concat (map (\<lambda>(i, out).
        if o_unspendable out then []
        else [(i, \<lparr>ce_output = out, ce_height = height, ce_coinbase = tx_coinbase t,
                    ce_spent = False\<rparr>)])
       (enumerate 0 (tx_outputs t)))"

definition view_removeTX :: "coinview \<Rightarrow> tx \<Rightarrow> int \<Rightarrow> coinview" where
  "view_removeTX v t height =
     v\<lparr>v_map := AList.update (tx_hash t)
                  (map (\<lambda>(i, c). (i, c\<lparr>ce_spent := True\<rparr>)) (coins_fromTX t height)) (v_map v)\<rparr>"

definition undo_commit :: "coinentry list \<Rightarrow> coinentry list" where
  "undo_commit items = map ce_encode items"

definition undo_apply ::
  "coinentry list \<Rightarrow> coinview \<Rightarrow> outpoint \<Rightarrow> error + (coinentry list \<times> coinview)" where
  "undo_apply items v p =
     (if items = [] then Inl (AssertionError ''undo'')
      else Inr (butlast items, view_addEntry v p (last items)))"

definition bits_commit :: "(nat \<times> bool) list \<Rightarrow> (nat \<Rightarrow> bool) \<Rightarrow> bool \<times> (nat \<Rightarrow> bool)" where
  "bits_commit bits fld =
     (if bits = [] then (False, fld)
      else (True, foldl (\<lambda>f ib. f(fst ib := snd ib)) fld bits))"

definition bits_undo :: "coinview \<Rightarrow> tx \<Rightarrow> coinview" where
  "bits_undo v t = v\<lparr>v_bits := foldl (\<lambda>m i. AList.update i False m) (v_bits v) (tx_bits t)\<rparr>"

subsection \<open>saveView\<close>

definition saveView_ops :: "coinview \<Rightarrow> batch_op list" where
  "saveView_ops v =
     concat (map (\<lambda>(h, coins).
        map (\<lambda>(i, c). if ce_spent c then Del (K_c h i) else Put (K_c h i) (VCoin (ce_encode c)))
          coins)
       (v_map v))"

definition saveView :: "coinview \<Rightarrow> chaindb \<Rightarrow> unit res" where
  "saveView v s =
     thenE (forE run_op (saveView_ops v) s) (\<lambda>s1.
       case bits_commit (v_bits v) (bitfield s1) of
         (False, fld) \<Rightarrow> (Inr (), s1)
       | (True, fld) \<Rightarrow> put K_f (VField fld) (s1\<lparr>bitfield := fld\<rparr>))"

subsection \<open>Transaction index\<close>

text \<open>
  Modelled from the spec: \<open>tx.getHashes(view)\<close> lists the address hashes of the coins a
  transaction spends and of its outputs, each once.
\<close>

definition tx_getHashes :: "tx \<Rightarrow> coinview \<Rightarrow> hash list" where
  "tx_getHashes t v =
     remdups
       ((if tx_coinbase t then []
         else concat (map (\<lambda>p. case view_getOutput v p of
                                  None \<Rightarrow> []
                                | Some out \<Rightarrow> (case o_address out of None \<Rightarrow> [] | Some a \<Rightarrow> [a]))
                        (tx_inputs t)))
        @ concat (map (\<lambda>out. case o_address out of None \<Rightarrow> [] | Some a \<Rightarrow> [a]) (tx_outputs t)))"

definition index_inputs :: "bool \<Rightarrow> coinview \<Rightarrow> outpoint \<Rightarrow> chaindb \<Rightarrow> unit res" where
  "index_inputs adding v p s =
     (case view_getOutput v p of
        None \<Rightarrow> (Inl (AssertionError ''coin''), s)
      | Some coin \<Rightarrow>
          (case o_address coin of
             None \<Rightarrow> (Inr (), s)
           | Some addr \<Rightarrow>
               if adding then put (K_C addr (op_hash p) (op_index p)) VNull s
               else del (K_C addr (op_hash p) (op_index p)) s))"

definition index_outputs :: "bool \<Rightarrow> hash \<Rightarrow> nat \<times> txoutput \<Rightarrow> chaindb \<Rightarrow> unit res" where
  "index_outputs adding h io s =
     (case o_address (snd io) of
        None \<Rightarrow> (Inr (), s)
      | Some addr \<Rightarrow>
          if adding then put (K_C addr h (fst io)) VNull s
          else del (K_C addr h (fst io)) s)"

definition indexTX :: "tx \<Rightarrow> coinview \<Rightarrow> chainentry \<Rightarrow> nat \<Rightarrow> chaindb \<Rightarrow> unit res" where
  "indexTX t v entry index s =
     thenE
       (if opt_indexTX (options s)
        then thenE (put (K_t (tx_hash t)) (VMeta t (e_hash entry) (e_height entry) index) s) (\<lambda>s1.
               if opt_indexAddress (options s1)
               then forE (\<lambda>addr. put (K_T addr (tx_hash t)) VNull) (tx_getHashes t v) s1
               else (Inr (), s1))
        else (Inr (), s))
       (\<lambda>s2.
          if \<not> opt_indexAddress (options s2) then (Inr (), s2)
          else
            thenE (if \<not> tx_coinbase t then forE (index_inputs False v) (tx_inputs t) s2
                   else (Inr (), s2))
              (forE (index_outputs True (tx_hash t)) (enumerate 0 (tx_outputs t))))"

definition unindexTX :: "tx \<Rightarrow> coinview \<Rightarrow> chaindb \<Rightarrow> unit res" where
  "unindexTX t v s =
     thenE
       (if opt_indexTX (options s)
        then thenE (del (K_t (tx_hash t)) s) (\<lambda>s1.
               if opt_indexAddress (options s1)
               then forE (\<lambda>addr. del (K_T addr (tx_hash t))) (tx_getHashes t v) s1
               else (Inr (), s1))
        else (Inr (), s))
       (\<lambda>s2.
          if \<not> opt_indexAddress (options s2) then (Inr (), s2)
          else
            thenE (if \<not> tx_coinbase t then forE (index_inputs True v) (tx_inputs t) s2
                   else (Inr (), s2))
              (forE (index_outputs False (tx_hash t)) (enumerate 0 (tx_outputs t))))"

subsection \<open>Name tree\<close>

text \<open>
  The authenticated tree is an external store: \<open>inject\<close> rewinds the tree to a root it
  holds (the empty root always), \<open>txn.commit\<close> gives the tree the root of the
  transaction's content.
\<close>

definition tree_inject :: "hash \<Rightarrow> chaindb \<Rightarrow> unit res" where
  "tree_inject root s =
     (if root = ZERO_HASH \<or> root \<in> set (tree_roots s) then (Inr (), s\<lparr>tree_root := root\<rparr>)
      else (Inl (Error ''Missing node.''), s))"

definition txn_commit :: "chaindb \<Rightarrow> chaindb" where
  "txn_commit s =
     (let r = nsr_rootOf (namerules s) (txn s)
      in s\<lparr>tree_root := r, tree_roots := r # tree_roots s\<rparr>)"

definition txn_save :: "namerules \<Rightarrow> (hash \<Rightarrow> bytes option) \<Rightarrow> namestate \<Rightarrow> (hash \<Rightarrow> bytes option)" where
  "txn_save r t ns =
     (if nsr_isNull r ns then t(ns_nameHash ns := None)
      else t(ns_nameHash ns \<mapsto> nsr_encode r ns))"

definition pendingTreeState_commit :: "hash \<Rightarrow> int \<Rightarrow> chaindb \<Rightarrow> unit res" where
  "pendingTreeState_commit root height s =
     (case pendingTreeState s of
        None \<Rightarrow> (Inl TypeError, s)
      | Some pt \<Rightarrow>
          (case ts_commit pt root height of
             (raw, pt1) \<Rightarrow> put K_s raw (s\<lparr>pendingTreeState := Some pt1\<rparr>)))"

definition saveNames' :: "coinview \<Rightarrow> chainentry \<Rightarrow> bool \<Rightarrow> chaindb \<Rightarrow> unit res" where
  "saveNames' v entry revert s =
     (let s1 = s\<lparr>txn := foldl (txn_save (namerules s)) (txn s) (map snd (v_names v))\<rparr> in
      if treeInterval (network s1) \<noteq> 0 \<and> e_height entry mod treeInterval (network s1) = 0
      then
        thenE (if revert then tree_inject (e_treeRoot entry) s1 else (Inr (), txn_commit s1))
          (\<lambda>s2. pendingTreeState_commit (tree_root s2) (e_height entry) s2)
      else (Inr (), s1))"

text \<open>
  Modelled from the spec: \<open>view.toNameUndo()\<close> collects the (name hash, delta) pairs of the
  name states of the view that carry a delta.
\<close>

definition toNameUndo :: "namerules \<Rightarrow> coinview \<Rightarrow> (hash \<times> bytes) list" where
  "toNameUndo r v =
     concat (map (\<lambda>ns. case nsr_delta r ns of None \<Rightarrow> [] | Some d \<Rightarrow> [(ns_nameHash ns, d)])
               (map snd (v_names v)))"

definition connectNames :: "coinview \<Rightarrow> chainentry \<Rightarrow> chaindb \<Rightarrow> unit res" where
  "connectNames v entry s =
     (let undo = toNameUndo (namerules s) v in
      thenE (if length undo = 0 then del (K_w (e_height entry)) s
             else put (K_w (e_height entry)) (VNameUndo undo) s)
        (saveNames' v entry False))"

text \<open>
  Modelled from the spec: \<open>view.getNameState(db, nameHash)\<close> fetches a name state through
  the view, which keeps it; a name without a record gets a fresh state.
\<close>

definition view_getNameState ::
  "coinview \<Rightarrow> hash \<Rightarrow> chaindb \<Rightarrow> error + (namestate \<times> coinview)" where
  "view_getNameState v nameHash s =
     (case map_of (v_names v) nameHash of
        Some ns \<Rightarrow> Inr (ns, v)
      | None \<Rightarrow>
          (case getNameState nameHash s of
             Inl e \<Rightarrow> Inl e
           | Inr r \<Rightarrow>
               (let ns = (case r of
                            None \<Rightarrow> (nsr_new (namerules s))\<lparr>ns_nameHash := nameHash\<rparr>
                          | Some ns0 \<Rightarrow> ns0)
                in Inr (ns, v\<lparr>v_names := AList.update nameHash ns (v_names v)\<rparr>))))"

definition applyNameUndo :: "hash \<times> bytes \<Rightarrow> coinview \<Rightarrow> chaindb \<Rightarrow> coinview res" where
  "applyNameUndo nd v s =
     (case view_getNameState v (fst nd) s of
        Inl e \<Rightarrow> (Inl e, s)
      | Inr (ns, v1) \<Rightarrow>
          (Inr (v1\<lparr>v_names := AList.update (fst nd) (nsr_applyState (namerules s) ns (snd nd))
                                 (v_names v1)\<rparr>), s))"

definition disconnectNames :: "coinview \<Rightarrow> chainentry \<Rightarrow> chaindb \<Rightarrow> coinview res" where
  "disconnectNames v entry s =
     bindE
       (case db_get (db s) (K_w (e_height entry)) of
          None \<Rightarrow> (Inr v, s)
        | Some (VNameUndo undo) \<Rightarrow>
            bindE (foldE applyNameUndo undo v s) (\<lambda>v1 s1.
              bindE (del (K_w (e_height entry)) s1) (\<lambda>_ s2. (Inr v1, s2)))
        | Some _ \<Rightarrow> (Inl EncodingError, s))
       (\<lambda>v1 s1. bindE (saveNames' v1 entry True s1) (\<lambda>_ s2. (Inr v1, s2)))"

subsection \<open>connectBlock\<close>

definition connect_input :: "coinview \<Rightarrow> outpoint \<Rightarrow> chaindb \<Rightarrow> unit res" where
  "connect_input v p s =
     (case view_getOutput v p of
        None \<Rightarrow> (Inl (AssertionError ''output''), s)
      | Some out \<Rightarrow>
          if locked (o_covenant out) then (Inr (), s)
          else with_pending (\<lambda>pd. cs_spend pd out) s)"

definition connect_output :: "txoutput \<Rightarrow> chaindb \<Rightarrow> unit res" where
  "connect_output out s =
     (if o_unspendable out then (Inr (), s)
      else
        thenE (if isRegister (o_covenant out) then with_pending (\<lambda>pd. cs_burn pd out) s
               else (Inr (), s))
          (\<lambda>s1.
             if locked (o_covenant out) then (Inr (), s1)
             else if isClaim (o_covenant out) then
               (case getU32 (o_covenant out) 5 of
                  Inl e \<Rightarrow> (Inl e, s1)
                | Inr n \<Rightarrow>
                    if n \<noteq> 1 then (Inr (), s1)
                    else with_pending (\<lambda>pd. cs_add pd out) s1)
             else with_pending (\<lambda>pd. cs_add pd out) s1))"

definition connect_tx :: "chainentry \<Rightarrow> coinview \<Rightarrow> nat \<times> tx \<Rightarrow> chaindb \<Rightarrow> unit res" where
  "connect_tx entry v it s =
     thenE (if fst it > 0 then forE (connect_input v) (tx_inputs (snd it)) s else (Inr (), s))
       (\<lambda>s1. thenE (forE connect_output (tx_outputs (snd it)) s1)
          (indexTX (snd it) v entry (fst it)))"

definition pruneBlock :: "chainentry \<Rightarrow> chaindb \<Rightarrow> unit res" where
  "pruneBlock entry s =
     (if opt_spv (options s) then (Inr (), s)
      else if \<not> opt_prune (options s) then (Inr (), s)
      else
        (let height = e_height entry - keepBlocks (network s) in
         if height \<le> pruneAfterHeight (network s) then (Inr (), s)
         else
           (case getHash (ByHeight height) s of
              (None, s1) \<Rightarrow> (Inr (), s1)
            | (Some h, s1) \<Rightarrow>
                thenE (blocksBatch_prune (PruneUndo h) s1) (blocksBatch_prune (PruneBlock h)))))"

definition connectBlock :: "chainentry \<Rightarrow> block \<Rightarrow> coinview \<Rightarrow> chaindb \<Rightarrow> unit res" where
  "connectBlock entry blk v s =
     (if opt_spv (options s) then (Inr (), s)
      else
        thenE (with_pending (\<lambda>pd. cs_connect pd blk) s) (\<lambda>s1.
        thenE (forE (connect_tx entry v) (enumerate 0 (b_txs blk)) s1) (\<lambda>s2.
        thenE (saveView v s2) (\<lambda>s3.
        thenE (if v_undo v \<noteq> [] then blocksBatch_write (WriteUndo (b_hash blk) (undo_commit (v_undo v))) s3
               else (Inr (), s3)) (\<lambda>s4.
        thenE (pruneBlock entry s4) (connectNames v entry))))))"

subsection \<open>disconnectBlock\<close>

text \<open>The undo stream and the view travel through the loops of \<open>disconnectBlock\<close>.\<close>

definition disconnect_input ::
  "outpoint \<Rightarrow> coinentry list \<times> coinview \<Rightarrow> chaindb \<Rightarrow> (coinentry list \<times> coinview) res" where
  "disconnect_input p uv s =
     (case undo_apply (fst uv) (snd uv) p of
        Inl e \<Rightarrow> (Inl e, s)
      | Inr (undo1, v1) \<Rightarrow>
          (case view_getOutput v1 p of
             None \<Rightarrow> (Inl (AssertionError ''output''), s)
           | Some out \<Rightarrow>
               if locked (o_covenant out) then (Inr (undo1, v1), s)
               else bindE (with_pending (\<lambda>pd. cs_add pd out) s) (\<lambda>_ s1. (Inr (undo1, v1), s1))))"

definition disconnect_output :: "txoutput \<Rightarrow> chaindb \<Rightarrow> unit res" where
  "disconnect_output out s =
     (if o_unspendable out then (Inr (), s)
      else
        thenE (if isRegister (o_covenant out) then with_pending (\<lambda>pd. cs_unburn pd out) s
               else (Inr (), s))
          (\<lambda>s1.
             if locked (o_covenant out) then (Inr (), s1)
             else if isClaim (o_covenant out) then
               (case getU32 (o_covenant out) 5 of
                  Inl e \<Rightarrow> (Inl e, s1)
                | Inr n \<Rightarrow>
                    if n \<noteq> 1 then (Inr (), s1)
                    else with_pending (\<lambda>pd. cs_spend pd out) s1)
             else with_pending (\<lambda>pd. cs_spend pd out) s1))"

definition disconnect_tx ::
  "chainentry \<Rightarrow> nat \<times> tx \<Rightarrow> coinentry list \<times> coinview \<Rightarrow> chaindb \<Rightarrow>
   (coinentry list \<times> coinview) res" where
  "disconnect_tx entry it uv s =
     bindE (if fst it = 0 then (Inr (fst uv, bits_undo (snd uv) (snd it)), s)
            else foldE disconnect_input (rev (tx_inputs (snd it))) uv s)
       (\<lambda>uv1 s1.
          let v2 = view_removeTX (snd uv1) (snd it) (e_height entry) in
          bindE (forE disconnect_output (rev (tx_outputs (snd it))) s1) (\<lambda>_ s2.
            bindE (unindexTX (snd it) v2 s2) (\<lambda>_ s3. (Inr (fst uv1, v2), s3))))"

definition disconnect_txs ::
  "chainentry \<Rightarrow> block \<Rightarrow> coinentry list \<Rightarrow> chaindb \<Rightarrow> (coinentry list \<times> coinview) res" where
  "disconnect_txs entry blk undo s =
     foldE (disconnect_tx entry) (rev (enumerate 0 (b_txs blk))) (undo, new_CoinView) s"

definition disconnectBlock :: "chainentry \<Rightarrow> block \<Rightarrow> chaindb \<Rightarrow> coinview res" where
  "disconnectBlock entry blk s =
     (if opt_spv (options s) then (Inr new_CoinView, s)
      else
        (case getUndoCoins (b_hash blk) s of
           Inl e \<Rightarrow> (Inl e, s)
         | Inr undo \<Rightarrow>
             bindE (with_pending (\<lambda>pd. cs_disconnect pd blk) s) (\<lambda>_ s1.
             bindE (disconnect_txs entry blk undo s1) (\<lambda>uv s2.
               if fst uv \<noteq> [] then (Inl (AssertionError ''Undo coins data inconsistency.''), s2)
               else
                 bindE (saveView (snd uv) s2) (\<lambda>_ s3.
                 bindE (blocksBatch_prune (PruneUndo (b_hash blk)) s3) (\<lambda>_ s4.
                   disconnectNames (snd uv) entry s4))))))"

section \<open>Chain mutation engine\<close>

definition saveUpdates :: "chaindb \<Rightarrow> unit res" where
  "saveUpdates s =
     forE (\<lambda>u. put (K_v (cu_bit u) (cu_hash u)) (VBytes [of_nat (cu_state u)]))
       (sc_updates (stateCache s)) s"

definition saveBlock :: "chainentry \<Rightarrow> block \<Rightarrow> coinview option \<Rightarrow> chaindb \<Rightarrow> unit res" where
  "saveBlock entry blk view s =
     (if opt_spv (options s) then (Inr (), s)
      else
        thenE (blocksBatch_write (WriteBlock (b_hash blk) blk) s) (\<lambda>s1.
          case view of
            None \<Rightarrow> (Inr (), s1)
          | Some v \<Rightarrow> connectBlock entry blk v s1))"

definition removeBlock :: "chainentry \<Rightarrow> chaindb \<Rightarrow> coinview res" where
  "removeBlock entry s =
     (if opt_spv (options s) then (Inr new_CoinView, s)
      else
        (case getBlock (e_hash entry) s of
           Inl e \<Rightarrow> (Inl e, s)
         | Inr None \<Rightarrow> (Inl (Error ''Block not found.''), s)
         | Inr (Some blk) \<Rightarrow>
             bindE (blocksBatch_prune (PruneBlock (b_hash blk)) s) (\<lambda>_ s1.
               disconnectBlock entry blk s1)))"

definition pending_commit :: "hash \<Rightarrow> chaindb \<Rightarrow> unit res" where
  "pending_commit h s =
     (case pending s of
        None \<Rightarrow> (Inl TypeError, s)
      | Some p \<Rightarrow>
          (case cs_commit p h of
             (raw, p1) \<Rightarrow> put K_R raw (s\<lparr>pending := Some p1\<rparr>)))"

definition save' :: "chainentry \<Rightarrow> block \<Rightarrow> coinview option \<Rightarrow> chaindb \<Rightarrow> unit res" where
  "save' entry blk view s =
     (let h = b_hash blk in
      case fromU32 (e_height entry) of
        Inl e \<Rightarrow> (Inl e, s)
      | Inr raw_height \<Rightarrow>
          thenE (put (K_h h) (VBytes raw_height) s) (\<lambda>s.
          thenE (put (K_e h) (VEntry entry) s) (\<lambda>s.
          thenE (Inr (), s\<lparr>cacheHash := lru_push (cacheHash s) (e_hash entry) entry\<rparr>) (\<lambda>s.
          thenE (del (K_p (e_prevBlock entry)) s) (\<lambda>s.
          thenE (put (K_p h) VNull s) (\<lambda>s.
          thenE (saveUpdates s) (\<lambda>s.
            case view of
              None \<Rightarrow> saveBlock entry blk None s
            | Some v \<Rightarrow>
                thenE (if \<not> isGenesis entry then put (K_n (e_prevBlock entry)) (VBytes h) s
                       else (Inr (), s)) (\<lambda>s.
                thenE (put (K_H (e_height entry)) (VBytes h) s) (\<lambda>s.
                thenE (Inr (), s\<lparr>cacheHeight := lru_push (cacheHeight s) (e_height entry) entry\<rparr>) (\<lambda>s.
                thenE (saveBlock entry blk (Some v) s) (pending_commit h)))))))))))"

text \<open>The wrapper of every mutation: \<open>start\<close>, the body, \<open>drop\<close> on a throw, \<open>commit\<close>.\<close>

definition in_batch :: "(chaindb \<Rightarrow> 'a res) \<Rightarrow> chaindb \<Rightarrow> 'a res" where
  "in_batch body s =
     bindE (start s) (\<lambda>_ s1.
       case body s1 of
         (Inl e, s2) \<Rightarrow>
           (case drop_batch s2 of
              (Inl e1, s3) \<Rightarrow> (Inl e1, s3)
            | (Inr _, s3) \<Rightarrow> (Inl e, s3))
       | (Inr a, s2) \<Rightarrow> bindE (commit s2) (\<lambda>_ s3. (Inr a, s3)))"

definition save :: "chainentry \<Rightarrow> block \<Rightarrow> coinview option \<Rightarrow> chaindb \<Rightarrow> unit res" where
  "save entry blk view s = in_batch (save' entry blk view) s"

definition reconnect' :: "chainentry \<Rightarrow> block \<Rightarrow> coinview \<Rightarrow> chaindb \<Rightarrow> unit res" where
  "reconnect' entry blk v s =
     (let h = b_hash blk in
      if isGenesis entry then (Inl (AssertionError ''genesis''), s)
      else
        thenE (put (K_n (e_prevBlock entry)) (VBytes h) s) (\<lambda>s.
        thenE (put (K_H (e_height entry)) (VBytes h) s) (\<lambda>s.
        thenE (Inr (), s\<lparr>cacheHeight := lru_push (cacheHeight s) (e_height entry) entry,
                          cacheHash := lru_push (cacheHash s) (e_hash entry) entry\<rparr>) (\<lambda>s.
        thenE (saveUpdates s) (\<lambda>s.
        thenE (connectBlock entry blk v s) (pending_commit h))))))"

definition reconnect :: "chainentry \<Rightarrow> block \<Rightarrow> coinview \<Rightarrow> chaindb \<Rightarrow> unit res" where
  "reconnect entry blk v s = in_batch (reconnect' entry blk v) s"

definition disconnect' :: "chainentry \<Rightarrow> block \<Rightarrow> chaindb \<Rightarrow> coinview res" where
  "disconnect' entry blk s =
     bindE (del (K_n (e_prevBlock entry)) s) (\<lambda>_ s.
     bindE (del (K_H (e_height entry)) s) (\<lambda>_ s.
     bindE (Inr (), s\<lparr>cacheHeight := lru_unpush (cacheHeight s) (e_height entry)\<rparr>) (\<lambda>_ s.
     bindE (saveUpdates s) (\<lambda>_ s.
     bindE (disconnectBlock entry blk s) (\<lambda>v s.
     bindE (pending_commit (e_prevBlock entry) s) (\<lambda>_ s. (Inr v, s)))))))"

definition disconnect :: "chainentry \<Rightarrow> block \<Rightarrow> chaindb \<Rightarrow> coinview res" where
  "disconnect entry blk s = in_batch (disconnect' entry blk) s"

subsection \<open>reset\<close>

text \<open>
  The two walks of \<open>reset\<close> follow \<open>prevBlock\<close> until they meet the main chain or
  the target; on a store that never lets them arrive they do not return, so their
  results are optional.
\<close>

definition removeChain_step :: "chainentry \<Rightarrow> chaindb \<Rightarrow> unit res" where
  "removeChain_step tip s =
     thenE (del (K_p (e_hash tip)) s) (\<lambda>s.
     thenE (del (K_h (e_hash tip)) s) (\<lambda>s.
     thenE (del (K_e (e_hash tip)) s) (\<lambda>s.
     thenE (if blocks s \<noteq> None then blocksBatch_prune (PruneBlock (e_hash tip)) s
            else (Inr (), s)) (\<lambda>s.
       (Inr (), s\<lparr>cacheHash := lru_unpush (cacheHash s) (e_hash tip)\<rparr>)))))"

partial_function (option) removeChain_loop :: "chainentry \<Rightarrow> chaindb \<Rightarrow> unit res option" where
  "removeChain_loop tip s =
     (case isMainChain tip s of
        (main, s1) \<Rightarrow>
          if main then Some (Inr (), s1)
          else if isGenesis tip then Some (Inl (AssertionError ''genesis''), s1)
          else
            (case removeChain_step tip s1 of
               (Inl e, s2) \<Rightarrow> Some (Inl e, s2)
             | (Inr u, s2) \<Rightarrow>
                 (case getPrevious tip s2 of
                    (Inl e, s3) \<Rightarrow> Some (Inl e, s3)
                  | (Inr None, s3) \<Rightarrow> Some (Inl (AssertionError ''tip''), s3)
                  | (Inr (Some prev), s3) \<Rightarrow> removeChain_loop prev s3)))"

definition removeChain' :: "hash \<Rightarrow> chaindb \<Rightarrow> unit res option" where
  "removeChain' h s =
     (case getEntryByHash h s of
        (Inl e, s1) \<Rightarrow> Some (Inl e, s1)
      | (Inr None, s1) \<Rightarrow> Some (Inl (Error ''Alternate chain tip not found.''), s1)
      | (Inr (Some tip), s1) \<Rightarrow> removeChain_loop tip s1)"

fun removeChains_tips :: "hash list \<Rightarrow> chaindb \<Rightarrow> unit res option" where
  "removeChains_tips [] s = Some (Inr (), s)"
| "removeChains_tips (t # ts) s =
     (case removeChain' t s of
        None \<Rightarrow> None
      | Some (Inl e, s1) \<Rightarrow> Some (Inl e, s1)
      | Some (Inr u, s1) \<Rightarrow> removeChains_tips ts s1)"

definition removeChains :: "chaindb \<Rightarrow> unit res option" where
  "removeChains s =
     (let tips = getTips s in
      case start s of
        (Inl e, s1) \<Rightarrow> Some (Inl e, s1)
      | (Inr u, s1) \<Rightarrow>
          (case removeChains_tips tips s1 of
             None \<Rightarrow> None
           | Some (Inl e, s2) \<Rightarrow>
               (case drop_batch s2 of
                  (Inl e1, s3) \<Rightarrow> Some (Inl e1, s3)
                | (Inr u1, s3) \<Rightarrow> Some (Inl e, s3))
           | Some (Inr u1, s2) \<Rightarrow> Some (commit s2)))"

definition reset_step :: "chainentry \<Rightarrow> chaindb \<Rightarrow> unit res" where
  "reset_step tip s =
     thenE (del (K_p (e_hash tip)) s) (\<lambda>s.
     thenE (put (K_p (e_prevBlock tip)) VNull s) (\<lambda>s.
     thenE (del (K_H (e_height tip)) s) (\<lambda>s.
     thenE (del (K_h (e_hash tip)) s) (\<lambda>s.
     thenE (del (K_e (e_hash tip)) s) (\<lambda>s.
     thenE (del (K_n (e_prevBlock tip)) s) (\<lambda>s.
       case removeBlock tip s of
         (Inl e, s1) \<Rightarrow>
           (case drop_batch s1 of
              (Inl e1, s2) \<Rightarrow> (Inl e1, s2)
            | (Inr u, s2) \<Rightarrow> (Inl e, s2))
       | (Inr v, s1) \<Rightarrow>
           thenE (pending_commit (e_prevBlock tip) s1) (\<lambda>s.
           thenE (commit s) (\<lambda>s.
             (Inr (), s\<lparr>cacheHeight := lru_remove (cacheHeight s) (e_height tip),
                        cacheHash := lru_remove (cacheHash s) (e_hash tip)\<rparr>)))))))))"

partial_function (option) reset_loop ::
  "chainentry \<Rightarrow> chainentry \<Rightarrow> chaindb \<Rightarrow> chainentry res option" where
  "reset_loop entry tip s =
     (case start s of
        (Inl e, s1) \<Rightarrow> Some (Inl e, s1)
      | (Inr u, s1) \<Rightarrow>
          if e_hash tip = e_hash entry
          then Some (bindE (thenE (pending_commit (e_hash tip) s1) commit) (\<lambda>_ s2. (Inr tip, s2)))
          else if isGenesis tip then Some (Inl (AssertionError ''genesis''), s1)
          else
            (case reset_step tip s1 of
               (Inl e, s2) \<Rightarrow> Some (Inl e, s2)
             | (Inr u1, s2) \<Rightarrow>
                 (case getPrevious tip s2 of
                    (Inl e, s3) \<Rightarrow> Some (Inl e, s3)
                  | (Inr None, s3) \<Rightarrow> Some (Inl (AssertionError ''tip''), s3)
                  | (Inr (Some prev), s3) \<Rightarrow> reset_loop entry prev s3)))"

definition reset :: "blockid \<Rightarrow> chaindb \<Rightarrow> chainentry res option" where
  "reset blk s =
     (case getEntry blk s of
        (Inl e, s1) \<Rightarrow> Some (Inl e, s1)
      | (Inr None, s1) \<Rightarrow> Some (Inl (Error ''Block not found.''), s1)
      | (Inr (Some entry), s1) \<Rightarrow>
          (case isMainChain entry s1 of
             (False, s2) \<Rightarrow> Some (Inl (Error ''Cannot reset on alternate chain.''), s2)
           | (True, s2) \<Rightarrow>
               if opt_prune (options s2) then Some (Inl (Error ''Cannot reset when pruned.''), s2)
               else if ts_compactionHeight (treeState s2) \<noteq> 0
               then Some (Inl (Error ''Cannot reset when tree is compacted.''), s2)
               else
                 (case removeChains s2 of
                    None \<Rightarrow> None
                  | Some (Inl e, s3) \<Rightarrow> Some (Inl e, s3)
                  | Some (Inr u, s3) \<Rightarrow>
                      (case getTip s3 of
                         (Inl e, s4) \<Rightarrow> Some (Inl e, s4)
                       | (Inr None, s4) \<Rightarrow> Some (Inl (AssertionError ''tip''), s4)
                       | (Inr (Some tip), s4) \<Rightarrow> reset_loop entry tip s4))))"

section \<open>The constructor and sample objects\<close>

definition new_ChainState :: chainstate where
  "new_ChainState =
     \<lparr>cs_tip = ZERO_HASH, cs_tx = 0, cs_coin = 0, cs_value = 0, cs_burned = 0,
      cs_committed = False\<rparr>"

definition new_TreeState :: treestate where
  "new_TreeState =
     \<lparr>ts_treeRoot = ZERO_HASH, ts_commitHeight = 0, ts_compactionRoot = ZERO_HASH,
      ts_compactionHeight = 0, ts_committed = False\<rparr>"

definition new_LRU :: "nat \<Rightarrow> ('k, 'v) lru" where
  "new_LRU cap = \<lparr>lru_items = [], lru_capacity = cap, lru_pending = None\<rparr>"

definition new_ChainDB ::
  "chain_options \<Rightarrow> network \<Rightarrow> namerules \<Rightarrow> blockstore option \<Rightarrow> nat \<Rightarrow> chaindb" where
  "new_ChainDB opts net rules store entryCache =
     \<lparr>options = opts, network = net, namerules = rules, db = [], blocks = store,
      tree_root = ZERO_HASH, tree_roots = [], txn = (\<lambda>h. None),
      treeState = new_TreeState,
      stateCache = \<lparr>sc_bits = (\<lambda>k. None), sc_updates = []\<rparr>,
      state = new_ChainState, bitfield = (\<lambda>i. False),
      pending = None, pendingTreeState = None, current = None, blocksBatch = None,
      cacheHash = new_LRU entryCache, cacheHeight = new_LRU entryCache,
      io_script = [], effects = []\<rparr>"

text \<open>A small network, a full node's options, and trivial name rules, for examples.\<close>

definition sample_options :: chain_options where
  "sample_options =
     \<lparr>opt_network = 1, opt_spv = False, opt_prune = False, opt_indexTX = False,
      opt_indexAddress = False\<rparr>"

definition sample_network :: network where
  "sample_network =
     \<lparr>genesis_hash = [1], keepBlocks = 2, pruneAfterHeight = 0, treeInterval = 4,
      deploys = [\<lparr>dep_bit = 0, dep_startTime = 10, dep_timeout = 20, dep_threshold = - 1,
                  dep_window = - 1\<rparr>]\<rparr>"

definition sample_rules :: namerules where
  "sample_rules =
     \<lparr>nsr_new = \<lparr>ns_nameHash = ZERO_HASH, ns_data = []\<rparr>,
      nsr_decode = (\<lambda>raw. if raw = [] then Inl EncodingError
                           else Inr \<lparr>ns_nameHash = ZERO_HASH, ns_data = raw\<rparr>),
      nsr_encode = ns_data,
      nsr_isNull = (\<lambda>ns. ns_data ns = []),
      nsr_reset = (\<lambda>ns h. ns\<lparr>ns_data := u32le h\<rparr>),
      nsr_maybeExpire = (\<lambda>ns h net. if h > 100 then ns\<lparr>ns_data := []\<rparr> else ns),
      nsr_applyState = (\<lambda>ns d. ns\<lparr>ns_data := d\<rparr>),
      nsr_delta = (\<lambda>ns. None),
      nsr_rootOf = (\<lambda>t. case t [7] of None \<Rightarrow> [9] | Some d \<Rightarrow> 10 # d)\<rparr>"

definition empty_store :: blockstore where
  "empty_store = \<lparr>bs_blocks = (\<lambda>h. None), bs_undo = (\<lambda>h. None)\<rparr>"

definition sample_db :: chaindb where
  "sample_db = new_ChainDB sample_options sample_network sample_rules (Some empty_store) 8"

text \<open>
  A batch opened while the StateCache holds one update; the blob writes will succeed and
  the key-value write will throw.
\<close>

definition sample_update :: cacheupdate where
  "sample_update = \<lparr>cu_bit = 0, cu_hash = [5], cu_state = 1\<rparr>"

definition c3_state :: chaindb where
  "c3_state =
     snd (start (sample_db
       \<lparr>stateCache := \<lparr>sc_bits = (\<lambda>k. if k = (0, [5]) then Some 1 else None),
                       sc_updates = [sample_update]\<rparr>,
        io_script := [IoOk, IoFail 0]\<rparr>))"

text \<open>Sample outputs, entries and a pruned store for the examples.\<close>

definition claim_output :: "int \<Rightarrow> txoutput" where
  "claim_output n =
     \<lparr>o_value = 70, o_address = Some [3],
      o_covenant = \<lparr>ctype = types_CLAIM, citems = [[], [], [], [], [], u32le n]\<rparr>,
      o_unspendable = False\<rparr>"

definition e11 :: chainentry where
  "e11 = \<lparr>e_hash = [11], e_prevBlock = [10], e_height = 1, e_treeRoot = ZERO_HASH\<rparr>"

definition e12 :: chainentry where
  "e12 = \<lparr>e_hash = [12], e_prevBlock = [11], e_height = 2, e_treeRoot = ZERO_HASH\<rparr>"

definition blk11 :: block where
  "blk11 = \<lparr>b_hash = [11], b_txs = []\<rparr>"

definition c5_store :: blockstore where
  "c5_store =
     \<lparr>bs_blocks = (\<lambda>h. if h = [11] then Some blk11 else None),
      bs_undo = (\<lambda>h. if h = [11] then Some [] else None)\<rparr>"

text \<open>
  A pruned chain of three blocks above the genesis block: the store holds the block at
  height 1, with one transaction, and has lost the blocks at heights 2 and 3.
\<close>

definition c9_tx :: tx where
  "c9_tx = \<lparr>tx_hash = [41], tx_inputs = [], tx_outputs = [], tx_coinbase = True, tx_bits = []\<rparr>"

definition c9_store :: blockstore where
  "c9_store =
     \<lparr>bs_blocks = (\<lambda>h. if h = [11] then Some \<lparr>b_hash = [11], b_txs = [c9_tx]\<rparr> else None),
      bs_undo = (\<lambda>h. None)\<rparr>"

definition e13 :: chainentry where
  "e13 = \<lparr>e_hash = [13], e_prevBlock = [12], e_height = 3, e_treeRoot = ZERO_HASH\<rparr>"

definition c9_state :: chaindb where
  "c9_state =
     sample_db\<lparr>options := sample_options\<lparr>opt_prune := True\<rparr>,
               db := [(K_e [11], VEntry e11), (K_n [11], VBytes [12]),
                      (K_e [12], VEntry e12), (K_n [12], VBytes [13]),
                      (K_e [13], VEntry e13)],
               blocks := Some c9_store,
               state := new_ChainState\<lparr>cs_tip := [13]\<rparr>\<rparr>"

definition count_iter :: "(int \<times> nat) list \<Rightarrow> chainentry \<Rightarrow> tx list \<Rightarrow> error + (int \<times> nat) list" where
  "count_iter acc e txs = Inr (acc @ [(e_height e, length txs)])"

definition match_all :: "nat \<Rightarrow> tx \<Rightarrow> bool \<times> nat" where
  "match_all f t = (True, f + 1)"


text \<open>
  A store whose tip is at height 3 (the sample network keeps 2 blocks and prunes after
  height 0) and one whose tip is at height 2; both hold the block at height 1.
\<close>

definition c5_state :: "int \<Rightarrow> chaindb" where
  "c5_state tip_height =
     sample_db
       \<lparr>db := [(K_O, VFlags (flags_fromOptions sample_options)),
                (K_h [13], VBytes (u32le tip_height)),
                (K_H 1, VBytes [11])],
        state := new_ChainState\<lparr>cs_tip := [13]\<rparr>,
        blocks := Some c5_store\<rparr>"


text \<open>
  A store that holds the entry \<open>e12\<close> off the main chain: it has no \<open>n\<close> record and
  the tip is another block.
\<close>

definition c7_state :: chaindb where
  "c7_state =
     sample_db\<lparr>db := [(K_e [12], VEntry e12), (K_h [12], VBytes (u32le 2))],
               state := new_ChainState\<lparr>cs_tip := [13]\<rparr>\<rparr>"

text \<open>
  A chain whose tip is block \<open>[12]\<close> at height 2, holding one unspent coin of value 100,
  and a block \<open>[13]\<close> on top of it: a coinbase paying 50 and a transaction that spends
  the coin into outputs of 60 and 40. \<open>view13\<close> is the view of that block connected at the
  tip: the spent coin, the three new coins and the undo log.
\<close>

definition plain_output :: "int \<Rightarrow> hash \<Rightarrow> txoutput" where
  "plain_output v a =
     \<lparr>o_value = v, o_address = Some a, o_covenant = \<lparr>ctype = types_NONE, citems = []\<rparr>,
      o_unspendable = False\<rparr>"

definition coinA :: coinentry where
  "coinA = \<lparr>ce_output = plain_output 100 [2], ce_height = 2, ce_coinbase = False,
            ce_spent = False\<rparr>"

definition cb21 :: tx where
  "cb21 =
     \<lparr>tx_hash = [21], tx_inputs = [\<lparr>op_hash = ZERO_HASH, op_index = 4294967295\<rparr>],
      tx_outputs = [plain_output 50 [5]], tx_coinbase = True, tx_bits = []\<rparr>"

definition tx22 :: tx where
  "tx22 =
     \<lparr>tx_hash = [22], tx_inputs = [\<lparr>op_hash = [20], op_index = 0\<rparr>],
      tx_outputs = [plain_output 60 [3], plain_output 40 [4]], tx_coinbase = False,
      tx_bits = []\<rparr>"

definition blk13 :: block where
  "blk13 = \<lparr>b_hash = [13], b_txs = [cb21, tx22]\<rparr>"

definition view13 :: coinview where
  "view13 =
     \<lparr>v_map = [([20], [(0, coinA\<lparr>ce_spent := True\<rparr>)]),
               ([21], coins_fromTX cb21 3),
               ([22], coins_fromTX tx22 3)],
      v_undo = [coinA\<lparr>ce_spent := True\<rparr>],
      v_names = [],
      v_bits = []\<rparr>"

definition tip12_state :: chaindb where
  "tip12_state =
     sample_db
       \<lparr>db := [(K_R, VState [12] 5 1 100 0),
                (K_c [20] 0, VCoin coinA),
                (K_p [12], VNull),
                (K_H 2, VBytes [12]),
                (K_h [12], VBytes (u32le 2)),
                (K_n [11], VBytes [12])],
        state := \<lparr>cs_tip = [12], cs_tx = 5, cs_coin = 1, cs_value = 100, cs_burned = 0,
                   cs_committed = True\<rparr>\<rparr>"

text \<open>The same chain with block \<open>[13]\<close> connected, as far as \<open>disconnectBlock\<close> reads it.\<close>

definition c4_state :: chaindb where
  "c4_state =
     snd (start (tip12_state
       \<lparr>blocks := Some (empty_store\<lparr>bs_undo := (\<lambda>h. if h = [13] then Some [coinA] else None)\<rparr>)\<rparr>))"

text \<open>
  A batch that commits a new tip and a new tree state to a store with blobs: it stages
  the block \<open>[13]\<close> and the prune of the block \<open>[11]\<close>, one entry in each entry
  cache, and the records \<open>s\<close> and \<open>R\<close>; the StateCache holds one staged update.
\<close>

definition c2_state :: chaindb where
  "c2_state =
     (let s0 = sample_db\<lparr>blocks := Some c5_store,
                  stateCache := \<lparr>sc_bits = (\<lambda>k. if k = (0, [5]) then Some 1 else None),
                                  sc_updates = [sample_update]\<rparr>\<rparr>;
          s1 = snd (start s0);
          s2 = s1\<lparr>cacheHash := lru_push (cacheHash s1) [13] e13,
                   cacheHeight := lru_push (cacheHeight s1) 3 e13\<rparr>;
          s3 = snd (blocksBatch_write (WriteBlock [13] blk13) s2);
          s4 = snd (blocksBatch_prune (PruneBlock [11]) s3);
          s5 = snd (pendingTreeState_commit [9] 4 s4)
      in snd (pending_commit [13] s5))"

text \<open>
  A block at height 3 whose only transaction pays a claim with sequence 1, a claim with
  sequence 2 and a plain output of 50, its view, and the chain of tip \<open>[12]\<close> run as an
  SPV node.
\<close>

definition tx_claims :: tx where
  "tx_claims =
     \<lparr>tx_hash = [31], tx_inputs = [\<lparr>op_hash = ZERO_HASH, op_index = 4294967295\<rparr>],
      tx_outputs = [claim_output 1, claim_output 2, plain_output 50 [5]], tx_coinbase = True,
      tx_bits = []\<rparr>"

definition blk_claims :: block where
  "blk_claims = \<lparr>b_hash = [13], b_txs = [tx_claims]\<rparr>"

definition view_claims :: coinview where
  "view_claims =
     \<lparr>v_map = [([31], coins_fromTX tx_claims 3)], v_undo = [], v_names = [], v_bits = []\<rparr>"

definition spv_state :: chaindb where
  "spv_state = tip12_state\<lparr>options := sample_options\<lparr>opt_spv := True\<rparr>\<rparr>"

section \<open>Notions used in the statements\<close>

text \<open>What a cache answers for a key, whatever the recency order of its items.\<close>

definition lru_lookup :: "('k, 'v) lru \<Rightarrow> 'k \<Rightarrow> 'v option" where
  "lru_lookup c k = (if lru_capacity c = 0 then None else map_of (lru_items c) k)"

text \<open>The main-chain hash that \<open>getHash\<close> finds for a height.\<close>

definition chain_hash_at :: "chaindb \<Rightarrow> int \<Rightarrow> hash option" where
  "chain_hash_at s i =
     (if i < 0 then None
      else case lru_lookup (cacheHeight s) i of
             Some e \<Rightarrow> Some (e_hash e)
           | None \<Rightarrow> map_option buffer_of (db_get (db s) (K_H i)))"

text \<open>Two states that differ at most in the recency order of the entry caches.\<close>

definition recency_only :: "chaindb \<Rightarrow> chaindb \<Rightarrow> bool" where
  "recency_only s s1 =
     (\<exists>a b. s1 = s\<lparr>cacheHash := a, cacheHeight := b\<rparr>
        \<and> lru_lookup a = lru_lookup (cacheHash s)
        \<and> lru_lookup b = lru_lookup (cacheHeight s)
        \<and> lru_pending a = lru_pending (cacheHash s)
        \<and> lru_pending b = lru_pending (cacheHeight s))"

text \<open>The prunes that \<open>prune\<close> queues for a list of heights.\<close>

definition prune_ops :: "chaindb \<Rightarrow> int list \<Rightarrow> blob_op list" where
  "prune_ops s hs =
     concat (map (\<lambda>i. case chain_hash_at s i of
                         None \<Rightarrow> []
                       | Some h \<Rightarrow> [PruneBlock h, PruneUndo h]) hs)"


text \<open>The next \<open>n\<close> durable writes will succeed.\<close>

definition writes_succeed :: "nat \<Rightarrow> chaindb \<Rightarrow> bool" where
  "writes_succeed n s = list_all (\<lambda>r. r = IoOk) (take n (io_script s))"

text \<open>Two states that differ at most in the content of the entry caches.\<close>

definition caches_only :: "chaindb \<Rightarrow> chaindb \<Rightarrow> bool" where
  "caches_only s s1 = (\<exists>a b. s1 = s\<lparr>cacheHash := a, cacheHeight := b\<rparr>)"

text \<open>
  The number of inputs of the non-coinbase transactions of a block: all transactions but
  the first.
\<close>

definition spent_inputs :: "block \<Rightarrow> nat" where
  "spent_inputs blk = sum_list (map (\<lambda>t. length (tx_inputs t)) (tl (b_txs blk)))"

text \<open>
  The result is not the assertion of \<open>undo.apply\<close>, which fails when the undo stream
  has run dry.
\<close>

definition no_undo_error :: "'a res \<Rightarrow> bool" where
  "no_undo_error r = (fst r \<noteq> Inl (AssertionError ''undo''))"

text \<open>The undo coins that \<open>disconnectBlock\<close> takes for the transaction at an index.\<close>

definition undo_need :: "nat \<times> tx \<Rightarrow> nat" where
  "undo_need it = (if fst it = 0 then 0 else length (tx_inputs (snd it)))"

text \<open>
  The main chain as \<open>scan\<close> walks it: the entries from \<open>e\<close> on, each found by
  \<open>getNext\<close> of the one before, up to the entry that has no next. The counter bounds
  the length of the walk.
\<close>

fun main_chain_from :: "nat \<Rightarrow> chainentry \<Rightarrow> chaindb \<Rightarrow> (chainentry list \<times> chaindb) option" where
  "main_chain_from 0 e s = None"
| "main_chain_from (Suc n) e s =
     (case getNext e s of
        (Inl err, s1) \<Rightarrow> None
      | (Inr None, s1) \<Rightarrow> Some ([e], s1)
      | (Inr (Some nxt), s1) \<Rightarrow>
          (case main_chain_from n nxt s1 of
             None \<Rightarrow> None
           | Some (es, s2) \<Rightarrow> Some (e # es, s2)))"

text \<open>
  The calls of \<open>iter\<close> that a scan owes for a list of entries: an entry whose block the
  store does not hold comes with the empty transaction list, an entry whose block it
  holds with the transactions that match the filter, which the matching updates.
\<close>

fun scan_calls ::
  "('f \<Rightarrow> tx \<Rightarrow> bool \<times> 'f) \<Rightarrow> (hash \<Rightarrow> block option) \<Rightarrow> 'f \<Rightarrow> chainentry list \<Rightarrow>
   (chainentry \<times> tx list) list \<times> 'f" where
  "scan_calls test bs filt [] = ([], filt)"
| "scan_calls test bs filt (e # es) =
     (case bs (e_hash e) of
        None \<Rightarrow>
          (case scan_calls test bs filt es of (cs, filt2) \<Rightarrow> ((e, []) # cs, filt2))
      | Some b \<Rightarrow>
          (case scan_txs test (b_txs b) filt of
             (txs, filt1) \<Rightarrow>
               (case scan_calls test bs filt1 es of (cs, filt2) \<Rightarrow> ((e, txs) # cs, filt2))))"

text \<open>The calls made in order, each on the result of the one before.\<close>

fun iter_all ::
  "('a \<Rightarrow> chainentry \<Rightarrow> tx list \<Rightarrow> error + 'a) \<Rightarrow> 'a \<Rightarrow> (chainentry \<times> tx list) list \<Rightarrow> error + 'a"
where
  "iter_all iter acc [] = Inr acc"
| "iter_all iter acc (c # cs) =
     (case iter acc (fst c) (snd c) of
        Inl err \<Rightarrow> Inl err
      | Inr acc1 \<Rightarrow> iter_all iter acc1 cs)"

section \<open>Notions for the effect of a batch body\<close>

text \<open>
  What the store will answer for a key once the operations staged in the current batch
  are written on top of the store \<open>m\<close>.
\<close>

definition staged :: "chaindb \<Rightarrow> kvstore \<Rightarrow> key \<Rightarrow> dbval option" where
  "staged s m k = db_get (batch_apply (case current s of None \<Rightarrow> [] | Some ops \<Rightarrow> ops) m) k"

text \<open>The table of a key: the prefix letter of the layout.\<close>

definition tbl :: "key \<Rightarrow> string" where
  "tbl k =
     (case k of
        K_V \<Rightarrow> ''V'' | K_O \<Rightarrow> ''O'' | K_R \<Rightarrow> ''R'' | K_s \<Rightarrow> ''s'' | K_D \<Rightarrow> ''D''
      | K_f \<Rightarrow> ''f'' | K_h h \<Rightarrow> ''h'' | K_H n \<Rightarrow> ''H'' | K_e h \<Rightarrow> ''e'' | K_n h \<Rightarrow> ''n''
      | K_p h \<Rightarrow> ''p'' | K_c h i \<Rightarrow> ''c'' | K_t h \<Rightarrow> ''t'' | K_T a h \<Rightarrow> ''T''
      | K_C a h i \<Rightarrow> ''C'' | K_v b h \<Rightarrow> ''v'' | K_w n \<Rightarrow> ''w'')"

definition op_key :: "batch_op \<Rightarrow> key" where
  "op_key x = (case x of Put k v \<Rightarrow> k | Del k \<Rightarrow> k)"

definition keys_of :: "string set \<Rightarrow> key set" where
  "keys_of T = {k. tbl k \<in> T}"

text \<open>The batch of \<open>s1\<close> is the batch of \<open>s\<close> with operations on keys of \<open>S\<close> appended.\<close>

definition appends_in :: "key set \<Rightarrow> chaindb \<Rightarrow> chaindb \<Rightarrow> bool" where
  "appends_in S s s1 =
     (\<exists>new. current s1 = map_option (\<lambda>ops. ops @ new) (current s)
        \<and> (\<forall>x\<in>set new. op_key x \<in> S))"

text \<open>What the body of a batch never touches before the commit.\<close>

definition body_frame :: "chaindb \<Rightarrow> chaindb \<Rightarrow> bool" where
  "body_frame s s1 =
     (db s1 = db s \<and> blocks s1 = blocks s \<and> state s1 = state s \<and> treeState s1 = treeState s
      \<and> options s1 = options s \<and> network s1 = network s \<and> namerules s1 = namerules s
      \<and> stateCache s1 = stateCache s \<and> io_script s1 = io_script s \<and> effects s1 = effects s)"

text \<open>
  One step of a batch body: it stages operations on keys of \<open>S\<close> only and turns the
  pending chain state \<open>p\<close> into \<open>f p\<close>.
\<close>

definition step :: "key set \<Rightarrow> (chainstate \<Rightarrow> chainstate) \<Rightarrow> chaindb \<Rightarrow> chaindb \<Rightarrow> bool" where
  "step S f s s1 =
     (body_frame s s1 \<and> appends_in S s s1 \<and> pending s1 = map_option f (pending s))"

text \<open>The counters of a chain state moved by the given amounts.\<close>

definition cs_shift :: "int \<Rightarrow> int \<Rightarrow> int \<Rightarrow> int \<Rightarrow> chainstate \<Rightarrow> chainstate" where
  "cs_shift t c v b p =
     p\<lparr>cs_tx := cs_tx p + t, cs_coin := cs_coin p + c, cs_value := cs_value p + v,
       cs_burned := cs_burned p + b\<rparr>"

text \<open>
  The outputs of a block that count: a spendable output is credited unless its covenant
  is in the locked range or is a claim whose u32 at index 5 is not 1; a spendable
  REGISTER output is burnt.
\<close>

definition credited :: "txoutput \<Rightarrow> bool" where
  "credited out =
     (\<not> o_unspendable out \<and> \<not> locked (o_covenant out)
      \<and> (isClaim (o_covenant out) \<longrightarrow> getU32 (o_covenant out) 5 = Inr 1))"

definition burnt :: "txoutput \<Rightarrow> bool" where
  "burnt out = (\<not> o_unspendable out \<and> isRegister (o_covenant out))"

definition out_coin :: "txoutput \<Rightarrow> int" where
  "out_coin out = (if burnt out then 1 else 0) + (if credited out then 1 else 0)"

definition out_value :: "txoutput \<Rightarrow> int" where
  "out_value out = (if credited out then o_value out else 0)"

definition out_burned :: "txoutput \<Rightarrow> int" where
  "out_burned out = (if burnt out then o_value out else 0)"

text \<open>
  What an output adds to the value counter when its block is connected: nothing when it
  is unspendable; for a claim its value exactly when the u32 at index 5 of the covenant
  is 1; for any other covenant its value unless the covenant is in the locked range.
\<close>

definition value_credit :: "txoutput \<Rightarrow> int" where
  "value_credit out =
     (if o_unspendable out then 0
      else if isClaim (o_covenant out)
        then (if getU32 (o_covenant out) 5 = Inr 1 then o_value out else 0)
      else if locked (o_covenant out) then 0
      else o_value out)"

definition outs_coin :: "txoutput list \<Rightarrow> int" where
  "outs_coin outs = sum_list (map out_coin outs)"

definition outs_value :: "txoutput list \<Rightarrow> int" where
  "outs_value outs = sum_list (map out_value outs)"

definition outs_burned :: "txoutput list \<Rightarrow> int" where
  "outs_burned outs = sum_list (map out_burned outs)"

text \<open>A spent coin counts unless the covenant of its output is in the locked range.\<close>

definition in_coin :: "txoutput option \<Rightarrow> int" where
  "in_coin r = (case r of None \<Rightarrow> 0 | Some out \<Rightarrow> if locked (o_covenant out) then 0 else 1)"

definition in_value :: "txoutput option \<Rightarrow> int" where
  "in_value r =
     (case r of None \<Rightarrow> 0 | Some out \<Rightarrow> if locked (o_covenant out) then 0 else o_value out)"

definition ins_coin :: "txoutput option list \<Rightarrow> int" where
  "ins_coin rs = sum_list (map in_coin rs)"

definition ins_value :: "txoutput option list \<Rightarrow> int" where
  "ins_value rs = sum_list (map in_value rs)"

definition undo_coin :: "coinentry list \<Rightarrow> int" where
  "undo_coin us = ins_coin (map (\<lambda>c. Some (ce_output c)) us)"

definition undo_value :: "coinentry list \<Rightarrow> int" where
  "undo_value us = ins_value (map (\<lambda>c. Some (ce_output c)) us)"

text \<open>
  The inputs that a block spends (those of all transactions but the first) and the
  outputs it creates.
\<close>

definition blk_inputs :: "block \<Rightarrow> outpoint list" where
  "blk_inputs blk = concat (map tx_inputs (tl (b_txs blk)))"

definition blk_outputs :: "block \<Rightarrow> txoutput list" where
  "blk_outputs blk = concat (map tx_outputs (b_txs blk))"

text \<open>The keys of the transaction and address indexes.\<close>

definition index_tables :: "key set" where
  "index_tables = keys_of {''t'', ''T'', ''C''}"

text \<open>The tree state record is rewritten at the heights that the tree interval divides.\<close>

definition tree_hit :: "network \<Rightarrow> chainentry \<Rightarrow> bool" where
  "tree_hit net entry = (treeInterval net \<noteq> 0 \<and> e_height entry mod treeInterval net = 0)"

definition tree_keys :: "network \<Rightarrow> chainentry \<Rightarrow> key set" where
  "tree_keys net entry = (if tree_hit net entry then {K_s} else {})"

text \<open>
  The keys that connecting or disconnecting the content of a block may write; the
  bitfield record \<open>f\<close> is among them only when the view carries a bitfield delta.
\<close>

definition block_keys :: "network \<Rightarrow> chainentry \<Rightarrow> bool \<Rightarrow> key set" where
  "block_keys net entry bits =
     index_tables \<union> keys_of {''c''} \<union> (if bits then {K_f} else {})
       \<union> {K_w (e_height entry)} \<union> tree_keys net entry"

text \<open>
  The keys that \<open>disconnect\<close> of a block may write: the \<open>n\<close> record of the parent,
  the \<open>H\<close> record of the height, the chain state record, the versionbit cache and, on
  a full node, the keys of the content of the block. \<open>save\<close> may write these and
  the \<open>h\<close>, \<open>e\<close> and \<open>p\<close> records of the block and the \<open>p\<close> record of the parent.
\<close>

definition disconnect_keys :: "chain_options \<Rightarrow> network \<Rightarrow> chainentry \<Rightarrow> bool \<Rightarrow> key set" where
  "disconnect_keys opts net entry bits =
     {K_n (e_prevBlock entry), K_H (e_height entry), K_R} \<union> keys_of {''v''}
       \<union> (if opt_spv opts then {} else block_keys net entry bits)"

definition touched_keys ::
  "chain_options \<Rightarrow> network \<Rightarrow> chainentry \<Rightarrow> block \<Rightarrow> bool \<Rightarrow> key set" where
  "touched_keys opts net entry blk bits =
     {K_h (b_hash blk), K_e (b_hash blk), K_p (b_hash blk), K_p (e_prevBlock entry)}
       \<union> disconnect_keys opts net entry bits"

text \<open>
  The record of one key after a list of batch operations, given the record before: the
  last operation on the key decides.
\<close>

fun apply_ops_at :: "key \<Rightarrow> batch_op list \<Rightarrow> dbval option \<Rightarrow> dbval option" where
  "apply_ops_at k [] old = old"
| "apply_ops_at k (x # ops) old =
     apply_ops_at k ops
       (case x of
          Put k' v \<Rightarrow> if k' = k then Some v else old
        | Del k' \<Rightarrow> if k' = k then None else old)"

text \<open>What connecting and disconnecting a block do to the counters of the pending state.\<close>

definition connect_shift :: "chain_options \<Rightarrow> block \<Rightarrow> coinview \<Rightarrow> chainstate \<Rightarrow> chainstate" where
  "connect_shift opts blk v =
     (if opt_spv opts then (\<lambda>p. p)
      else cs_shift (int (length (b_txs blk)))
             (outs_coin (blk_outputs blk) - ins_coin (map (view_getOutput v) (blk_inputs blk)))
             (outs_value (blk_outputs blk) - ins_value (map (view_getOutput v) (blk_inputs blk)))
             (outs_burned (blk_outputs blk)))"

definition disconnect_shift ::
  "chain_options \<Rightarrow> block \<Rightarrow> coinentry list \<Rightarrow> chainstate \<Rightarrow> chainstate" where
  "disconnect_shift opts blk undo =
     (if opt_spv opts then (\<lambda>p. p)
      else cs_shift (- int (length (b_txs blk)))
             (undo_coin undo - outs_coin (blk_outputs blk))
             (undo_value undo - outs_value (blk_outputs blk))
             (- outs_burned (blk_outputs blk)))"

text \<open>
  The undo coins of a block are the coins that the view gave for the inputs that the
  block spends, in the order of the inputs.
\<close>

definition undo_of_view :: "coinview \<Rightarrow> block \<Rightarrow> coinentry list \<Rightarrow> bool" where
  "undo_of_view v blk undo =
     (map (\<lambda>c. Some (ce_output c)) undo = map (view_getOutput v) (blk_inputs blk))"

section \<open>Results that are not throws\<close>

lemma bindE_ret: "bindE (Inr a, s) f = f a s"
  and bindE_err: "bindE (Inl e, s) f = (Inl e, s)"
  by (simp_all add: bindE_def)

lemma thenE_okD:
  assumes "thenE m f = (Inr a, s2)"
  obtains s1 where "m = (Inr (), s1)" and "f s1 = (Inr a, s2)"
  using assms by (cases m) (auto simp: thenE_def bindE_def split: sum.splits)

lemma bindE_okD:
  assumes "bindE m f = (Inr a, s2)"
  obtains x s1 where "m = (Inr x, s1)" and "f x s1 = (Inr a, s2)"
  using assms by (cases m) (auto simp: bindE_def split: sum.splits)


section \<open>Caches and frames\<close>

lemma map_of_filter_neq:
  "map_of (filter (\<lambda>kv. fst kv \<noteq> k) xs) k' = (if k' = k then None else map_of xs k')"
  by (induction xs) auto

lemma lru_get_lookup:
  assumes "lru_get c k = (r, c1)"
  shows "r = lru_lookup c k" and "lru_lookup c1 = lru_lookup c" and "lru_pending c1 = lru_pending c"
    and "lru_capacity c1 = lru_capacity c"
  using assms
  by (auto simp: lru_get_def lru_lookup_def map_of_filter_neq fun_eq_iff
      split: if_splits option.splits)

lemma recency_only_refl [simp]: "recency_only s s"
  unfolding recency_only_def
  by (rule exI [of _ "cacheHash s"], rule exI [of _ "cacheHeight s"]) simp

lemma recency_only_trans:
  assumes "recency_only s s1" and "recency_only s1 s2"
  shows "recency_only s s2"
proof -
  from assms(1) obtain a1 b1 where e1: "s1 = s\<lparr>cacheHash := a1, cacheHeight := b1\<rparr>"
    and l1: "lru_lookup a1 = lru_lookup (cacheHash s)" "lru_lookup b1 = lru_lookup (cacheHeight s)"
      "lru_pending a1 = lru_pending (cacheHash s)" "lru_pending b1 = lru_pending (cacheHeight s)"
    unfolding recency_only_def by (elim exE conjE)
  from assms(2) obtain a2 b2 where e2: "s2 = s1\<lparr>cacheHash := a2, cacheHeight := b2\<rparr>"
    and l2: "lru_lookup a2 = lru_lookup (cacheHash s1)" "lru_lookup b2 = lru_lookup (cacheHeight s1)"
      "lru_pending a2 = lru_pending (cacheHash s1)" "lru_pending b2 = lru_pending (cacheHeight s1)"
    unfolding recency_only_def by (elim exE conjE)
  have "s2 = s\<lparr>cacheHash := a2, cacheHeight := b2\<rparr>"
    by (simp add: e2 e1)
  moreover have "lru_lookup a2 = lru_lookup (cacheHash s)" "lru_lookup b2 = lru_lookup (cacheHeight s)"
      "lru_pending a2 = lru_pending (cacheHash s)" "lru_pending b2 = lru_pending (cacheHeight s)"
    using l1 l2 by (simp_all add: e1)
  ultimately show ?thesis
    unfolding recency_only_def by blast
qed

lemma recency_only_fields:
  assumes "recency_only s s1"
  shows "db s1 = db s" "blocks s1 = blocks s" "state s1 = state s" "treeState s1 = treeState s"
    "options s1 = options s" "network s1 = network s" "io_script s1 = io_script s"
    "pending s1 = pending s" "pendingTreeState s1 = pendingTreeState s" "current s1 = current s"
    "blocksBatch s1 = blocksBatch s" "stateCache s1 = stateCache s" "effects s1 = effects s"
    "txn s1 = txn s" "tree_root s1 = tree_root s" "tree_roots s1 = tree_roots s"
    "bitfield s1 = bitfield s" "namerules s1 = namerules s"
    "lru_lookup (cacheHash s1) = lru_lookup (cacheHash s)"
    "lru_lookup (cacheHeight s1) = lru_lookup (cacheHeight s)"
    "lru_pending (cacheHash s1) = lru_pending (cacheHash s)"
    "lru_pending (cacheHeight s1) = lru_pending (cacheHeight s)"
proof -
  from assms obtain a b where e: "s1 = s\<lparr>cacheHash := a, cacheHeight := b\<rparr>"
    and l: "lru_lookup a = lru_lookup (cacheHash s)" "lru_lookup b = lru_lookup (cacheHeight s)"
      "lru_pending a = lru_pending (cacheHash s)" "lru_pending b = lru_pending (cacheHeight s)"
    unfolding recency_only_def by (elim exE conjE)
  show "db s1 = db s" "blocks s1 = blocks s" "state s1 = state s" "treeState s1 = treeState s"
    "options s1 = options s" "network s1 = network s" "io_script s1 = io_script s"
    "pending s1 = pending s" "pendingTreeState s1 = pendingTreeState s" "current s1 = current s"
    "blocksBatch s1 = blocksBatch s" "stateCache s1 = stateCache s" "effects s1 = effects s"
    "txn s1 = txn s" "tree_root s1 = tree_root s" "tree_roots s1 = tree_roots s"
    "bitfield s1 = bitfield s" "namerules s1 = namerules s"
    "lru_lookup (cacheHash s1) = lru_lookup (cacheHash s)"
    "lru_lookup (cacheHeight s1) = lru_lookup (cacheHeight s)"
    "lru_pending (cacheHash s1) = lru_pending (cacheHash s)"
    "lru_pending (cacheHeight s1) = lru_pending (cacheHeight s)"
    using l by (simp_all add: e)
qed

lemma recency_only_cacheHeight:
  "lru_lookup c = lru_lookup (cacheHeight s) \<Longrightarrow> lru_pending c = lru_pending (cacheHeight s)
   \<Longrightarrow> recency_only s (s\<lparr>cacheHeight := c\<rparr>)"
  unfolding recency_only_def
  by (rule exI [of _ "cacheHash s"], rule exI [of _ c]) simp

lemma recency_only_cacheHash:
  "lru_lookup c = lru_lookup (cacheHash s) \<Longrightarrow> lru_pending c = lru_pending (cacheHash s)
   \<Longrightarrow> recency_only s (s\<lparr>cacheHash := c\<rparr>)"
  unfolding recency_only_def
  by (rule exI [of _ c], rule exI [of _ "cacheHeight s"]) simp

lemma chain_hash_at_recency: "recency_only s s1 \<Longrightarrow> chain_hash_at s1 i = chain_hash_at s i"
  by (simp add: chain_hash_at_def recency_only_fields cong: option.case_cong)

lemma getHash_ByHeight:
  assumes "getHash (ByHeight i) s = (r, s1)"
  shows "r = chain_hash_at s i" and "recency_only s s1"
proof -
  obtain r0 c0 where g: "lru_get (cacheHeight s) i = (r0, c0)"
    by (cases "lru_get (cacheHeight s) i")
  note L = lru_get_lookup [OF g]
  show "r = chain_hash_at s i"
    using assms g L(1)
    by (auto simp: getHash_def chain_hash_at_def split: if_splits option.splits)
  have "s1 = s \<or> s1 = s\<lparr>cacheHeight := c0\<rparr>"
    using assms g by (auto simp: getHash_def split: if_splits option.splits)
  then show "recency_only s s1"
    using recency_only_cacheHeight [OF L(2) L(3)] by auto
qed

lemma getHeight_recency:
  assumes "getHeight b s = (r, s1)"
  shows "recency_only s s1"
proof (cases b)
  case (ByHeight n)
  with assms show ?thesis by (simp add: getHeight_def)
next
  case (ById h)
  obtain r0 c0 where g: "lru_get (cacheHash s) h = (r0, c0)"
    by (cases "lru_get (cacheHash s) h")
  note L = lru_get_lookup [OF g]
  have "s1 = s \<or> s1 = s\<lparr>cacheHash := c0\<rparr>"
    using assms g ById by (auto simp: getHeight_def split: if_splits option.splits sum.splits)
  then show ?thesis
    using recency_only_cacheHash [OF L(2) L(3)] by auto
qed

lemma db_get_put [simp]: "db_get (db_put k v m) k' = (if k' = k then Some v else db_get m k')"
  by (simp add: db_get_def db_put_def update_conv')

lemma db_get_del [simp]: "db_get (db_del k m) k' = (if k' = k then None else db_get m k')"
  by (simp add: db_get_def db_del_def delete_conv')


lemma caches_only_refl [simp]: "caches_only s s"
  unfolding caches_only_def
  by (rule exI [of _ "cacheHash s"], rule exI [of _ "cacheHeight s"]) simp

lemma caches_only_trans:
  assumes "caches_only s s1" and "caches_only s1 s2"
  shows "caches_only s s2"
proof -
  from assms(1) obtain a1 b1 where e1: "s1 = s\<lparr>cacheHash := a1, cacheHeight := b1\<rparr>"
    unfolding caches_only_def by (elim exE)
  from assms(2) obtain a2 b2 where e2: "s2 = s1\<lparr>cacheHash := a2, cacheHeight := b2\<rparr>"
    unfolding caches_only_def by (elim exE)
  have "s2 = s\<lparr>cacheHash := a2, cacheHeight := b2\<rparr>"
    by (simp add: e2 e1)
  then show ?thesis
    unfolding caches_only_def by blast
qed

lemma caches_only_fields:
  assumes "caches_only s s1"
  shows "db s1 = db s" "blocks s1 = blocks s" "state s1 = state s" "treeState s1 = treeState s"
    "options s1 = options s" "network s1 = network s" "io_script s1 = io_script s"
    "pending s1 = pending s" "pendingTreeState s1 = pendingTreeState s" "current s1 = current s"
    "blocksBatch s1 = blocksBatch s" "stateCache s1 = stateCache s" "effects s1 = effects s"
    "txn s1 = txn s" "tree_root s1 = tree_root s" "tree_roots s1 = tree_roots s"
    "bitfield s1 = bitfield s" "namerules s1 = namerules s"
proof -
  from assms obtain a b where e: "s1 = s\<lparr>cacheHash := a, cacheHeight := b\<rparr>"
    unfolding caches_only_def by (elim exE)
  show "db s1 = db s" "blocks s1 = blocks s" "state s1 = state s" "treeState s1 = treeState s"
    "options s1 = options s" "network s1 = network s" "io_script s1 = io_script s"
    "pending s1 = pending s" "pendingTreeState s1 = pendingTreeState s" "current s1 = current s"
    "blocksBatch s1 = blocksBatch s" "stateCache s1 = stateCache s" "effects s1 = effects s"
    "txn s1 = txn s" "tree_root s1 = tree_root s" "tree_roots s1 = tree_roots s"
    "bitfield s1 = bitfield s" "namerules s1 = namerules s"
    by (simp_all add: e)
qed

lemma recency_caches: "recency_only s s1 \<Longrightarrow> caches_only s s1"
  unfolding recency_only_def caches_only_def by blast

lemma caches_only_cacheHash [simp]: "caches_only s (s\<lparr>cacheHash := c\<rparr>)"
  unfolding caches_only_def
  by (rule exI [of _ c], rule exI [of _ "cacheHeight s"]) simp

lemma caches_only_cacheHeight [simp]: "caches_only s (s\<lparr>cacheHeight := c\<rparr>)"
  unfolding caches_only_def
  by (rule exI [of _ "cacheHash s"], rule exI [of _ c]) simp

lemma getEntryByHash_caches:
  assumes "getEntryByHash h s = (r, s1)"
  shows "caches_only s s1"
proof -
  have "s1 = s \<or> (\<exists>c. s1 = s\<lparr>cacheHash := c\<rparr>)"
    using assms
    by (auto simp: getEntryByHash_def split: if_splits prod.splits option.splits dbval.splits)
  then show ?thesis by auto
qed

lemma getEntryByHeight_caches:
  assumes "getEntryByHeight n s = (r, s1)"
  shows "caches_only s s1"
proof (cases "n < 0")
  case True
  with assms show ?thesis by (simp add: getEntryByHeight_def)
next
  case nn: False
  obtain r0 c0 where g: "lru_get (cacheHeight s) n = (r0, c0)"
    by (cases "lru_get (cacheHeight s) n")
  show ?thesis
  proof (cases r0)
    case (Some e)
    with assms nn g show ?thesis by (auto simp: getEntryByHeight_def)
  next
    case None
    show ?thesis
    proof (cases "db_get (db s) (K_H n)")
      case dn: None
      with assms nn g None show ?thesis by (simp add: getEntryByHeight_def)
    next
      case (Some v)
      obtain r1 s0 where h: "getEntryByHash (buffer_of v) s = (r1, s0)"
        by (cases "getEntryByHash (buffer_of v) s")
      note C = getEntryByHash_caches [OF h]
      have "s1 = s0 \<or> (\<exists>c. s1 = s0\<lparr>cacheHeight := c\<rparr>)"
        using assms nn g None Some h
        by (auto simp: getEntryByHeight_def bindE_def split: sum.splits option.splits)
      then show ?thesis
        using C caches_only_trans [OF C caches_only_cacheHeight] by auto
    qed
  qed
qed

lemma getEntry_caches: "getEntry b s = (r, s1) \<Longrightarrow> caches_only s s1"
  by (cases b) (auto simp: getEntry_def dest: getEntryByHash_caches getEntryByHeight_caches)

lemma isMainChain_caches:
  assumes "isMainChain e s = (r, s1)"
  shows "caches_only s s1"
proof -
  have "s1 = s \<or> (\<exists>c. s1 = s\<lparr>cacheHeight := c\<rparr>)"
    using assms
    by (auto simp: isMainChain_def split: if_splits prod.splits option.splits)
  then show ?thesis by auto
qed


section \<open>Evaluation of the sample objects\<close>

lemmas sample_defs = sample_db_def new_ChainDB_def sample_options_def sample_network_def
  new_ChainState_def new_TreeState_def new_LRU_def empty_store_def

lemmas batch_defs = start_def put_def del_def pending_commit_def cs_commit_def cs_clone_def
  ts_clone_def cs_encode_def lru_start_def empty_blobbatch_def Let_def

lemmas commit_defs = commit_def commit_try_def commit_catch_def commit_swap_def thenE_def
  bindE_def blocks_commitWrites_def current_write_def io_next_def swap_state_def
  swap_treeState_def cacheHash_commit_def cacheHeight_commit_def stateCache_commit_def
  blocks_commitPrunes_def lru_commit_def sc_commit_def batch_apply_def db_put_def db_del_def

section \<open>The batch coordinator\<close>

subsection \<open>The steps of a successful commit\<close>

lemma commit_try_ok:
  assumes "commit_try s = (Inr (), s1)" and "current s = Some ops"
  shows "effects s1 = effects s @ (if blocks s \<noteq> None then [BlobWritesCommitted] else [])
           @ [KVBatchWritten]"
    and "pending s1 = pending s" and "pendingTreeState s1 = pendingTreeState s"
    and "(blocks s1 = None) = (blocks s = None)" and "blocksBatch s1 = blocksBatch s"
    and "db s1 = batch_apply ops (db s)"
    and "state s1 = state s" and "treeState s1 = treeState s"
    and "cacheHash s1 = cacheHash s" and "cacheHeight s1 = cacheHeight s"
    and "stateCache s1 = stateCache s"
    and "blocks s1 = map_option (\<lambda>st. foldl apply_blob st
           (case blocksBatch s of None \<Rightarrow> [] | Some bb \<Rightarrow> bb_writes bb)) (blocks s)"
    and "options s1 = options s" and "network s1 = network s" and "namerules s1 = namerules s"
    and "bitfield s1 = bitfield s"
  using assms
  by (auto simp: commit_try_def thenE_def bindE_def blocks_commitWrites_def current_write_def
        io_next_def
      split: if_splits option.splits io_outcome.splits)

lemma commit_swap_ok:
  assumes "commit_swap s = (Inr r, s2)" and "pending s = Some p"
    and "pendingTreeState s = Some pt"
  shows "effects s2 = effects s @ (if cs_committed p then [StateSwapped] else [])
           @ (if ts_committed pt then [TreeStateSwapped] else [])"
    and "blocks s2 = blocks s" and "blocksBatch s2 = blocksBatch s"
    and "state s2 = (if cs_committed p then p else state s)"
    and "treeState s2 = (if ts_committed pt then pt else treeState s)"
    and "db s2 = db s"
    and "cacheHash s2 = cacheHash s" and "cacheHeight s2 = cacheHeight s"
    and "stateCache s2 = stateCache s"
    and "options s2 = options s" and "network s2 = network s" and "namerules s2 = namerules s"
    and "bitfield s2 = bitfield s"
  using assms
  by (auto simp: commit_swap_def swap_state_def swap_treeState_def Let_def split: if_splits)

lemma commit_tail_ok:
  assumes "(let s3 = s2\<lparr>current := None, pending := None, pendingTreeState := None\<rparr>;
                s4 = stateCache_commit (cacheHeight_commit (cacheHash_commit s3))
            in if blocks s4 \<noteq> None then blocks_commitPrunes s4 else (Inr (), s4)) = (Inr (), s')"
  shows "effects s' = effects s2 @ [CacheHashCommitted, CacheHeightCommitted, StateCacheCommitted]
           @ (if blocks s2 \<noteq> None then [BlobPrunesCommitted] else [])"
    and "state s' = state s2" and "treeState s' = treeState s2" and "db s' = db s2"
    and "cacheHash s' = lru_commit (cacheHash s2)"
    and "cacheHeight s' = lru_commit (cacheHeight s2)"
    and "stateCache s' = sc_commit (stateCache s2)"
    and "current s' = None" and "pending s' = None" and "pendingTreeState s' = None"
    and "blocks s' = map_option (\<lambda>st. foldl apply_blob st
           (case blocksBatch s2 of None \<Rightarrow> [] | Some bb \<Rightarrow> bb_prunes bb)) (blocks s2)"
    and "options s' = options s2" and "network s' = network s2" and "namerules s' = namerules s2"
    and "bitfield s' = bitfield s2"
  using assms
  by (auto simp: Let_def cacheHash_commit_def cacheHeight_commit_def stateCache_commit_def
        blocks_commitPrunes_def io_next_def
      split: if_splits option.splits io_outcome.splits)

lemma commit_okD:
  assumes ok: "commit s = (Inr (), s')"
  obtains ops p pt s1 r s2 where
    "current s = Some ops" "pending s = Some p" "pendingTreeState s = Some pt"
    "commit_try s = (Inr (), s1)" "commit_swap s1 = (Inr r, s2)"
    "(let s3 = s2\<lparr>current := None, pending := None, pendingTreeState := None\<rparr>;
          s4 = stateCache_commit (cacheHeight_commit (cacheHash_commit s3))
      in if blocks s4 \<noteq> None then blocks_commitPrunes s4 else (Inr (), s4)) = (Inr (), s')"
  using ok
  by (auto simp: commit_def bindE_def split: if_splits prod.splits sum.splits)

lemma commit_ok:
  assumes ok: "commit s = (Inr (), s')"
  shows "\<exists>ops p. current s = Some ops \<and> pending s = Some p
           \<and> db s' = batch_apply ops (db s)
           \<and> state s' = (if cs_committed p then p else state s)"
    and "options s' = options s" and "network s' = network s" and "namerules s' = namerules s"
    and "current s' = None" and "pending s' = None"
    and "blocks s' = map_option (\<lambda>st. foldl apply_blob st
           (case blocksBatch s of None \<Rightarrow> [] | Some bb \<Rightarrow> bb_writes bb @ bb_prunes bb)) (blocks s)"
proof -
  from ok obtain ops p pt s1 r s2 where
    c: "current s = Some ops" and p: "pending s = Some p" and pt: "pendingTreeState s = Some pt"
    and t: "commit_try s = (Inr (), s1)"
    and sw: "commit_swap s1 = (Inr r, s2)"
    and tl: "(let s3 = s2\<lparr>current := None, pending := None, pendingTreeState := None\<rparr>;
                  s4 = stateCache_commit (cacheHeight_commit (cacheHash_commit s3))
              in if blocks s4 \<noteq> None then blocks_commitPrunes s4 else (Inr (), s4)) = (Inr (), s')"
    by (rule commit_okD)
  note T = commit_try_ok [OF t c]
  have p1: "pending s1 = Some p" and pt1: "pendingTreeState s1 = Some pt"
    using T p pt by simp_all
  note S = commit_swap_ok [OF sw p1 pt1]
  note L = commit_tail_ok [OF tl]
  show "\<exists>ops p. current s = Some ops \<and> pending s = Some p
           \<and> db s' = batch_apply ops (db s)
           \<and> state s' = (if cs_committed p then p else state s)"
    using c p T S L by simp
  show "options s' = options s" "network s' = network s" "namerules s' = namerules s"
    "current s' = None" "pending s' = None"
    using T S L by simp_all
  show "blocks s' = map_option (\<lambda>st. foldl apply_blob st
           (case blocksBatch s of None \<Rightarrow> [] | Some bb \<Rightarrow> bb_writes bb @ bb_prunes bb)) (blocks s)"
    using T(5,12) S(2,3) L(11)
    by (cases "blocksBatch s"; cases "blocks s") simp_all
qed

text \<open>
  C2. A commit that succeeds performs its effects in this order: the blob writes (when a
  blob store is configured), the key-value batch, the swap of \<open>state\<close> when the pending
  state is committed, the swap of \<open>treeState\<close> when the pending tree state is committed,
  the promotion of the two entry caches and of the StateCache, and the blob prunes (when a
  blob store is configured). Each effect is what it says. When the \<open>try\<close> block of
  \<open>commit\<close> is through, the blob store holds the writes of the blob batch and none of
  its prunes, the key-value store is the batch applied to the old store, and the
  in-memory states and the caches are still the old ones. When \<open>commit\<close> returns, the
  in-memory states are the pending ones exactly when they are committed, the caches are
  the promoted caches, and the blob store has lost what the batch prunes.
\<close>

theorem commit_effect_order:
  assumes ok: "commit s = (Inr (), s')"
    and p: "pending s = Some p"
    and pt: "pendingTreeState s = Some pt"
    and c: "current s = Some ops"
  shows "effects s' = effects s
           @ (if blocks s \<noteq> None then [BlobWritesCommitted] else [])
           @ [KVBatchWritten]
           @ (if cs_committed p then [StateSwapped] else [])
           @ (if ts_committed pt then [TreeStateSwapped] else [])
           @ [CacheHashCommitted, CacheHeightCommitted, StateCacheCommitted]
           @ (if blocks s \<noteq> None then [BlobPrunesCommitted] else [])
         \<and> (\<exists>s1. commit_try s = (Inr (), s1)
               \<and> blocks s1 = map_option (\<lambda>st. foldl apply_blob st
                   (case blocksBatch s of None \<Rightarrow> [] | Some bb \<Rightarrow> bb_writes bb)) (blocks s)
               \<and> db s1 = batch_apply ops (db s)
               \<and> state s1 = state s \<and> treeState s1 = treeState s
               \<and> cacheHash s1 = cacheHash s \<and> cacheHeight s1 = cacheHeight s
               \<and> stateCache s1 = stateCache s
               \<and> blocks s' = map_option (\<lambda>st. foldl apply_blob st
                   (case blocksBatch s of None \<Rightarrow> [] | Some bb \<Rightarrow> bb_prunes bb)) (blocks s1))
         \<and> db s' = batch_apply ops (db s)
         \<and> state s' = (if cs_committed p then p else state s)
         \<and> treeState s' = (if ts_committed pt then pt else treeState s)
         \<and> cacheHash s' = lru_commit (cacheHash s)
         \<and> cacheHeight s' = lru_commit (cacheHeight s)
         \<and> stateCache s' = sc_commit (stateCache s)
         \<and> blocks s' = map_option (\<lambda>st. foldl apply_blob st
               (case blocksBatch s of None \<Rightarrow> [] | Some bb \<Rightarrow> bb_writes bb @ bb_prunes bb))
               (blocks s)"
proof -
  from ok obtain s1 r s2 where
    t: "commit_try s = (Inr (), s1)"
    and sw: "commit_swap s1 = (Inr r, s2)"
    and tl: "(let s3 = s2\<lparr>current := None, pending := None, pendingTreeState := None\<rparr>;
                  s4 = stateCache_commit (cacheHeight_commit (cacheHash_commit s3))
              in if blocks s4 \<noteq> None then blocks_commitPrunes s4 else (Inr (), s4)) = (Inr (), s')"
    by (rule commit_okD)
  note T = commit_try_ok [OF t c]
  have p1: "pending s1 = Some p" and pt1: "pendingTreeState s1 = Some pt"
    using T p pt by simp_all
  note S = commit_swap_ok [OF sw p1 pt1]
  note L = commit_tail_ok [OF tl]
  have pr: "blocks s' = map_option (\<lambda>st. foldl apply_blob st
              (case blocksBatch s of None \<Rightarrow> [] | Some bb \<Rightarrow> bb_prunes bb)) (blocks s1)"
    using L(11) S(2,3) T(5) by simp
  have all: "blocks s' = map_option (\<lambda>st. foldl apply_blob st
               (case blocksBatch s of None \<Rightarrow> [] | Some bb \<Rightarrow> bb_writes bb @ bb_prunes bb))
               (blocks s)"
    using pr T(12) by (cases "blocksBatch s"; cases "blocks s") simp_all
  have mid: "\<exists>s1. commit_try s = (Inr (), s1)
               \<and> blocks s1 = map_option (\<lambda>st. foldl apply_blob st
                   (case blocksBatch s of None \<Rightarrow> [] | Some bb \<Rightarrow> bb_writes bb)) (blocks s)
               \<and> db s1 = batch_apply ops (db s)
               \<and> state s1 = state s \<and> treeState s1 = treeState s
               \<and> cacheHash s1 = cacheHash s \<and> cacheHeight s1 = cacheHeight s
               \<and> stateCache s1 = stateCache s
               \<and> blocks s' = map_option (\<lambda>st. foldl apply_blob st
                   (case blocksBatch s of None \<Rightarrow> [] | Some bb \<Rightarrow> bb_prunes bb)) (blocks s1)"
    using t T pr by blast
  have rest: "effects s' = effects s
           @ (if blocks s \<noteq> None then [BlobWritesCommitted] else [])
           @ [KVBatchWritten]
           @ (if cs_committed p then [StateSwapped] else [])
           @ (if ts_committed pt then [TreeStateSwapped] else [])
           @ [CacheHashCommitted, CacheHeightCommitted, StateCacheCommitted]
           @ (if blocks s \<noteq> None then [BlobPrunesCommitted] else [])
         \<and> db s' = batch_apply ops (db s)
         \<and> state s' = (if cs_committed p then p else state s)
         \<and> treeState s' = (if ts_committed pt then pt else treeState s)
         \<and> cacheHash s' = lru_commit (cacheHash s)
         \<and> cacheHeight s' = lru_commit (cacheHeight s)
         \<and> stateCache s' = sc_commit (stateCache s)"
    using T(1-11) S(1-9) L(1-10) by simp
  from rest mid all show ?thesis by blast
qed

lemmas c2_defs = c2_state_def sample_defs batch_defs blocksBatch_write_def blocksBatch_prune_def
  pendingTreeState_commit_def ts_commit_def ts_encode_def lru_push_def c5_store_def

lemma c2_state_eval:
  "current c2_state = Some [Put K_s (VTree [9] 4 ZERO_HASH 0), Put K_R (VState [13] 0 0 0 0)]"
  "pending c2_state = Some (new_ChainState\<lparr>cs_tip := [13], cs_committed := True\<rparr>)"
  "pendingTreeState c2_state
     = Some (new_TreeState\<lparr>ts_treeRoot := [9], ts_commitHeight := 4, ts_committed := True\<rparr>)"
  "blocks c2_state = Some c5_store"
  "blocksBatch c2_state
     = Some \<lparr>bb_writes = [WriteBlock [13] blk13], bb_prunes = [PruneBlock [11]]\<rparr>"
  "effects c2_state = []"
  "db c2_state = []"
  by (simp_all add: c2_defs)

lemma c2_commit_ok: "fst (commit c2_state) = Inr ()"
  by (simp add: c2_defs commit_defs)

lemma c2_caches:
  "lru_items (lru_commit (cacheHash c2_state)) = [([13], e13)]"
  "lru_items (lru_commit (cacheHeight c2_state)) = [(3, e13)]"
  "sc_updates (stateCache c2_state) = [sample_update]"
  by (simp_all add: c2_defs lru_commit_def lru_set_def)

theorem commit_effect_order_witness:
  "effects (snd (commit c2_state)) =
     [BlobWritesCommitted, KVBatchWritten, StateSwapped, TreeStateSwapped, CacheHashCommitted,
      CacheHeightCommitted, StateCacheCommitted, BlobPrunesCommitted]
   \<and> db_get (db (snd (commit c2_state))) K_R = Some (VState [13] 0 0 0 0)
   \<and> db_get (db (snd (commit c2_state))) K_s = Some (VTree [9] 4 ZERO_HASH 0)
   \<and> cs_tip (state (snd (commit c2_state))) = [13]
   \<and> ts_treeRoot (treeState (snd (commit c2_state))) = [9]
   \<and> map_option (\<lambda>st. (bs_blocks st [13], bs_blocks st [11])) (blocks (snd (commit c2_state)))
        = Some (Some blk13, None)
   \<and> map_option (\<lambda>st. (bs_blocks st [13], bs_blocks st [11])) (blocks (snd (commit_try c2_state)))
        = Some (Some blk13, Some blk11)
   \<and> lru_items (cacheHash (snd (commit c2_state))) = [([13], e13)]
   \<and> lru_items (cacheHeight (snd (commit c2_state))) = [(3, e13)]
   \<and> sc_updates (stateCache (snd (commit c2_state))) = []"
proof -
  have ok: "commit c2_state = (Inr (), snd (commit c2_state))"
    using c2_commit_ok by (metis prod.collapse)
  from commit_effect_order [OF ok c2_state_eval(2) c2_state_eval(3) c2_state_eval(1)]
  show ?thesis
    by (auto simp: c2_state_eval c2_caches new_ChainState_def new_TreeState_def batch_apply_def
          db_put_def db_get_def sc_commit_def c5_store_def)
qed


subsection \<open>A commit whose writes throw\<close>

text \<open>
  When the blob writes or the key-value write throw, \<open>commit\<close> rethrows after its own
  clean-up: the store, the in-memory state and tree state are the old ones, the pending
  pointers and the batch are gone and the two entry caches have dropped their staged
  operations. The StateCache is left as it was: its staged updates stay.
\<close>

lemma commit_try_fail:
  assumes "commit_try s = (Inl e, s1)"
  shows "db s1 = db s" and "state s1 = state s" and "treeState s1 = treeState s"
    and "cacheHash s1 = cacheHash s" and "cacheHeight s1 = cacheHeight s"
    and "stateCache s1 = stateCache s" and "effects s1 = effects s
           \<or> effects s1 = effects s @ [BlobWritesCommitted]"
  using assms
  by (auto simp: commit_try_def thenE_def bindE_def blocks_commitWrites_def current_write_def
        io_next_def
      split: if_splits option.splits io_outcome.splits)

lemma commit_failure_rollback:
  assumes t: "commit_try s = (Inl e, s1)"
    and "current s = Some ops" "pending s = Some p" "pendingTreeState s = Some pt"
  shows "fst (commit s) = Inl e
         \<and> db (snd (commit s)) = db s
         \<and> state (snd (commit s)) = state s
         \<and> treeState (snd (commit s)) = treeState s
         \<and> current (snd (commit s)) = None
         \<and> pending (snd (commit s)) = None
         \<and> pendingTreeState (snd (commit s)) = None
         \<and> cacheHash (snd (commit s)) = lru_drop (cacheHash s)
         \<and> cacheHeight (snd (commit s)) = lru_drop (cacheHeight s)
         \<and> stateCache (snd (commit s)) = stateCache s"
  using assms commit_try_fail [OF t]
  by (simp add: commit_def commit_catch_def)

text \<open>
  C3. The claim fails on the StateCache. With one staged StateCache update and a key-value
  write that throws, \<open>commit\<close> rethrows the error and leaves the update staged and
  cached, where \<open>drop\<close> on the same batch rolls it back.
\<close>

theorem commit_failure_keeps_statecache_updates:
  "fst (commit c3_state) = Inl IOError
   \<and> sc_updates (stateCache (snd (commit c3_state))) = [sample_update]
   \<and> sc_bits (stateCache (snd (commit c3_state))) (0, [5]) = Some 1
   \<and> fst (drop_batch c3_state) = Inr ()
   \<and> sc_updates (stateCache (snd (drop_batch c3_state))) = []
   \<and> sc_bits (stateCache (snd (drop_batch c3_state))) (0, [5]) = None"
  by (simp add: c3_state_def sample_defs batch_defs commit_defs drop_batch_def sc_drop_def
        sample_update_def lru_drop_def)

section \<open>Read API\<close>

lemma not_ZERO_HASH: "length h \<noteq> 32 \<Longrightarrow> h \<noteq> ZERO_HASH"
  by (auto simp: ZERO_HASH_def)

lemma short_hash [simp]: "[x] \<noteq> ZERO_HASH" "ZERO_HASH \<noteq> [x]"
  using not_ZERO_HASH [of "[x]"] by auto

text \<open>
  C10. \<open>getNameStatus\<close> never returns null. Past its assertion on the height, a name
  without a record in the tree transaction gets a fresh name state reset at the height,
  and a name with a record gets the decoded state, with its name hash set, after
  \<open>maybeExpire\<close> for the height; the only other outcome is the decoder's throw.
\<close>

theorem getNameStatus_never_null:
  "getNameStatus nameHash height s \<noteq> Inr None
   \<and> getNameStatus nameHash height s =
       (if \<not> (0 \<le> height \<and> height < 4294967296) then Inl (AssertionError ''height'')
        else case txn s nameHash of
               None \<Rightarrow> Inr (Some (nsr_reset (namerules s) (nsr_new (namerules s)) height))
             | Some raw \<Rightarrow>
                 (case nsr_decode (namerules s) raw of
                    Inl e \<Rightarrow> Inl e
                  | Inr ns \<Rightarrow>
                      Inr (Some (nsr_maybeExpire (namerules s) (ns\<lparr>ns_nameHash := nameHash\<rparr>)
                                   height (network s)))))"
  by (simp add: getNameStatus_def getNameState_def split: option.splits sum.splits)

subsection \<open>The walk of scan\<close>

lemma getNext_caches:
  assumes "getNext e s = (r, s1)"
  shows "caches_only s s1"
  using assms
  by (auto simp: getNext_def split: option.splits dest: getEntryByHash_caches)

lemma scan_loop_stop: "scan_loop test iter None filt acc n s = Some (Inr (filt, acc, n), s)"
  by (subst scan_loop.simps) simp

lemma scan_loop_entry:
  assumes "opt_prune (options s)" and "\<not> opt_spv (options s)" and "blocks s = Some st"
  shows "scan_loop test iter (Some e) filt acc n s =
           (case scan_calls test (bs_blocks st) filt [e] of
              (cs, filt1) \<Rightarrow>
                (case iter_all iter acc cs of
                   Inl err \<Rightarrow> Some (Inl err, s)
                 | Inr acc1 \<Rightarrow>
                     (case getNext e s of
                        (Inl err, s1) \<Rightarrow> Some (Inl err, s1)
                      | (Inr nxt, s1) \<Rightarrow> scan_loop test iter nxt filt1 acc1 (n + 1) s1)))"
proof (cases "bs_blocks st (e_hash e)")
  case None
  with assms have g: "getBlock (e_hash e) s = Inr None" by (simp add: getBlock_def)
  show ?thesis
    by (subst scan_loop.simps) (cases "iter acc e []"; simp add: g None assms)
next
  case (Some b)
  with assms have g: "getBlock (e_hash e) s = Inr (Some b)" by (simp add: getBlock_def)
  obtain txs filt1 where t: "scan_txs test (b_txs b) filt = (txs, filt1)"
    by (cases "scan_txs test (b_txs b) filt")
  show ?thesis
    by (subst scan_loop.simps) (cases "iter acc e txs"; simp add: g Some t)
qed

lemma scan_calls_Cons:
  "scan_calls test bs filt (e # es) =
     (case scan_calls test bs filt [e] of
        (c1, filt1) \<Rightarrow>
          (case scan_calls test bs filt1 es of (cs, filt2) \<Rightarrow> (c1 @ cs, filt2)))"
  by (simp split: option.splits prod.splits)

lemma scan_calls_single_length: "length (fst (scan_calls test bs filt [e])) = 1"
  by (simp split: option.splits prod.splits)

lemma iter_all_append:
  "iter_all iter acc (xs @ ys) =
     (case iter_all iter acc xs of Inl err \<Rightarrow> Inl err | Inr acc1 \<Rightarrow> iter_all iter acc1 ys)"
  by (induction xs arbitrary: acc) (simp_all split: sum.splits)

lemma scan_loop_chain:
  assumes "main_chain_from k e s = Some (es, s')"
    and "opt_prune (options s)" and "\<not> opt_spv (options s)" and "blocks s = Some st"
    and "iter_all iter acc (fst (scan_calls test (bs_blocks st) filt es)) = Inr acc'"
  shows "scan_loop test iter (Some e) filt acc n s =
           Some (Inr (snd (scan_calls test (bs_blocks st) filt es), acc', n + length es), s')"
  using assms
proof (induction k arbitrary: e s es filt acc n)
  case 0
  then show ?case by simp
next
  case (Suc k)
  obtain r s1 where g: "getNext e s = (r, s1)" by (cases "getNext e s")
  note F = caches_only_fields [OF getNext_caches [OF g]]
  obtain c1 filt1 where c1: "scan_calls test (bs_blocks st) filt [e] = (c1, filt1)"
    by (cases "scan_calls test (bs_blocks st) filt [e]")
  note L = scan_loop_entry [OF Suc.prems(2,3,4), of test iter e filt acc n]
  show ?case
  proof (cases r)
    case (Inl err)
    with Suc.prems(1) g show ?thesis by simp
  next
    case (Inr nx)
    show ?thesis
    proof (cases nx)
      case None
      with Suc.prems(1) g Inr have es: "es = [e]" and s': "s' = s1" by simp_all
      from Suc.prems(5) es c1 have "iter_all iter acc c1 = Inr acc'" by simp
      with L c1 g Inr None es s' show ?thesis
        by (simp add: scan_loop_stop)
    next
      case (Some nxt)
      with Suc.prems(1) g Inr obtain es1 where
        w: "main_chain_from k nxt s1 = Some (es1, s')" and es: "es = e # es1"
        by (auto split: option.splits)
      obtain cs filt2 where cs: "scan_calls test (bs_blocks st) filt1 es1 = (cs, filt2)"
        by (cases "scan_calls test (bs_blocks st) filt1 es1")
      have all: "scan_calls test (bs_blocks st) filt es = (c1 @ cs, filt2)"
        using es c1 cs by (subst es, subst scan_calls_Cons) simp
      from Suc.prems(5) all have it: "iter_all iter acc (c1 @ cs) = Inr acc'" by simp
      then obtain acc1 where a1: "iter_all iter acc c1 = Inr acc1"
        and a2: "iter_all iter acc1 cs = Inr acc'"
        by (auto simp: iter_all_append split: sum.splits)
      have p1: "opt_prune (options s1)" "\<not> opt_spv (options s1)" "blocks s1 = Some st"
        using Suc.prems(2,3,4) F by simp_all
      have a2': "iter_all iter acc1 (fst (scan_calls test (bs_blocks st) filt1 es1)) = Inr acc'"
        using a2 cs by simp
      note IH = Suc.IH [OF w p1 a2', of "n + 1"]
      from L c1 a1 g Inr Some IH all cs es show ?thesis
        by simp
    qed
  qed
qed

lemma scan_calls_entries: "map fst (fst (scan_calls test bs filt es)) = es"
proof (induction es arbitrary: filt)
  case Nil
  then show ?case by simp
next
  case (Cons e es)
  show ?case
  proof (cases "bs (e_hash e)")
    case None
    obtain cs f2 where r: "scan_calls test bs filt es = (cs, f2)"
      by (cases "scan_calls test bs filt es")
    with Cons.IH [of filt] None show ?thesis by simp
  next
    case (Some b)
    obtain txs f1 where t: "scan_txs test (b_txs b) filt = (txs, f1)"
      by (cases "scan_txs test (b_txs b) filt")
    obtain cs f2 where r: "scan_calls test bs f1 es = (cs, f2)"
      by (cases "scan_calls test bs f1 es")
    with Cons.IH [of f1] Some t show ?thesis by simp
  qed
qed

lemma scan_calls_missing:
  "c \<in> set (fst (scan_calls test bs filt es)) \<Longrightarrow> bs (e_hash (fst c)) = None \<Longrightarrow> snd c = []"
proof (induction es arbitrary: filt)
  case Nil
  then show ?case by simp
next
  case (Cons e es)
  show ?case
  proof (cases "bs (e_hash e)")
    case None
    obtain cs f2 where r: "scan_calls test bs filt es = (cs, f2)"
      by (cases "scan_calls test bs filt es")
    with Cons.prems None have "c = (e, []) \<or> c \<in> set (fst (scan_calls test bs filt es))"
      by auto
    with Cons.IH [of filt] Cons.prems(2) show ?thesis by auto
  next
    case (Some b)
    obtain txs f1 where t: "scan_txs test (b_txs b) filt = (txs, f1)"
      by (cases "scan_txs test (b_txs b) filt")
    obtain cs f2 where r: "scan_calls test bs f1 es = (cs, f2)"
      by (cases "scan_calls test bs f1 es")
    with Cons.prems Some t have "c = (e, txs) \<or> c \<in> set (fst (scan_calls test bs f1 es))"
      by auto
    with Cons.IH [of f1] Cons.prems(2) Some show ?thesis by auto
  qed
qed

text \<open>
  C9. With pruning enabled on a full node, a scan that starts at an entry of the main
  chain walks the chain with \<open>getNext\<close> up to the entry that has no next, and then
  returns. It invokes \<open>iter\<close> once for every entry of the walk, in order: with the
  entry and the empty transaction list when the store does not hold the block of the
  entry, with the matching transactions when it does. It raises no error of its own,
  and it has visited as many entries as the walk has.
\<close>

theorem scan_pruned_chain:
  assumes pr: "opt_prune (options s)" and full: "\<not> opt_spv (options s)"
    and st: "blocks s = Some st"
    and ge: "getEntry from s = (Inr (Some e), s1)"
    and mc: "isMainChain e s1 = (True, s2)"
    and w: "main_chain_from k e s2 = Some (es, s3)"
    and it: "iter_all iter acc (fst (scan_calls test (bs_blocks st) filt es)) = Inr acc'"
  shows "scan test iter (Some from) filt acc s =
           Some (Inr (snd (scan_calls test (bs_blocks st) filt es), acc', length es), s3)
       \<and> map fst (fst (scan_calls test (bs_blocks st) filt es)) = es
       \<and> (\<forall>c\<in>set (fst (scan_calls test (bs_blocks st) filt es)).
             bs_blocks st (e_hash (fst c)) = None \<longrightarrow> snd c = [])"
proof -
  note F = caches_only_fields [OF caches_only_trans [OF getEntry_caches [OF ge]
      isMainChain_caches [OF mc]]]
  have p2: "opt_prune (options s2)" "\<not> opt_spv (options s2)" "blocks s2 = Some st"
    using pr full st F by simp_all
  from scan_loop_chain [OF w p2 it, of 0]
  have "scan test iter (Some from) filt acc s =
           Some (Inr (snd (scan_calls test (bs_blocks st) filt es), acc', length es), s3)"
    using ge mc by (simp add: scan_def)
  then show ?thesis
    using scan_calls_entries [of test "bs_blocks st" filt es]
      scan_calls_missing [of _ test "bs_blocks st" filt es]
    by blast
qed


lemma c9_entry:
  "getEntry (ById [11]) c9_state
     = (Inr (Some e11), c9_state\<lparr>cacheHash := lru_set (cacheHash c9_state) [11] e11\<rparr>)"
  by (simp add: getEntry_def getEntryByHash_def c9_state_def sample_defs db_get_def lru_get_def
        e11_def)

lemma c9_main:
  "isMainChain e11 (c9_state\<lparr>cacheHash := lru_set (cacheHash c9_state) [11] e11\<rparr>)
     = (True, c9_state\<lparr>cacheHash := lru_set (cacheHash c9_state) [11] e11\<rparr>)"
  by (simp add: isMainChain_def isGenesis_def e11_def c9_state_def sample_defs lru_get_def
        getNextHash_def db_get_def new_ChainState_def)

lemma c9_chain:
  "map_option fst
     (main_chain_from 3 e11 (c9_state\<lparr>cacheHash := lru_set (cacheHash c9_state) [11] e11\<rparr>))
     = Some [e11, e12, e13]"
  by (simp add: numeral_3_eq_3 getNext_def getNextHash_def getEntryByHash_def c9_state_def
        sample_defs db_get_def lru_get_def lru_set_def e11_def e12_def e13_def buffer_of_def
      split: option.splits prod.splits)

lemma c9_misc:
  "opt_prune (options c9_state)" "\<not> opt_spv (options c9_state)"
  "blocks c9_state = Some c9_store"
  by (simp_all add: c9_state_def sample_defs)

lemma c9_calls:
  "scan_calls match_all (bs_blocks c9_store) 0 [e11, e12, e13]
     = ([(e11, [c9_tx]), (e12, []), (e13, [])], 1)"
  by (simp add: c9_store_def e11_def e12_def e13_def match_all_def)

lemma c9_iter:
  "iter_all count_iter [] [(e11, [c9_tx]), (e12, []), (e13, [])] = Inr [(1, 1), (2, 0), (3, 0)]"
  by (simp add: count_iter_def e11_def e12_def e13_def)

theorem scan_pruned_chain_witness:
  "\<exists>s'. scan match_all count_iter (Some (ById [11])) 0 [] c9_state
          = Some (Inr (1, [(1, 1), (2, 0), (3, 0)], 3), s')"
proof -
  let ?s1 = "c9_state\<lparr>cacheHash := lru_set (cacheHash c9_state) [11] e11\<rparr>"
  from c9_chain obtain s3 where w: "main_chain_from 3 e11 ?s1 = Some ([e11, e12, e13], s3)"
    by (cases "main_chain_from 3 e11 ?s1") auto
  have it: "iter_all count_iter []
              (fst (scan_calls match_all (bs_blocks c9_store) 0 [e11, e12, e13]))
            = Inr [(1, 1), (2, 0), (3, 0)]"
    by (simp only: c9_calls fst_conv c9_iter)
  from scan_pruned_chain [OF c9_misc c9_entry c9_main w it] show ?thesis
    by (simp only: c9_calls snd_conv) simp
qed


section \<open>Covenants\<close>

lemma claim_not_locked: "isClaim c \<Longrightarrow> \<not> locked c \<and> \<not> isRegister c"
  by (simp add: isClaim_def locked_def isRegister_def types_CLAIM_def types_REGISTER_def)

section \<open>Retroactive pruning\<close>

lemma prune_ops_recency: "recency_only s s1 \<Longrightarrow> prune_ops s1 hs = prune_ops s hs"
  by (simp add: prune_ops_def chain_hash_at_recency)

lemma prune_loop_ok:
  assumes "prune_loop hs bb s = (Inr bb1, s1)"
  shows "(\<forall>i\<in>set hs. chain_hash_at s i \<noteq> None)
       \<and> bb_writes bb1 = bb_writes bb
       \<and> bb_prunes bb1 = bb_prunes bb @ prune_ops s hs
       \<and> recency_only s s1"
  using assms
proof (induction hs arbitrary: bb s)
  case Nil
  then show ?case by (auto simp: prune_ops_def)
next
  case (Cons i hs)
  obtain r s0 where g: "getHash (ByHeight i) s = (r, s0)"
    by (cases "getHash (ByHeight i) s")
  note G = getHash_ByHeight [OF g]
  from Cons.prems g obtain h where r: "r = Some h"
    and rest: "prune_loop hs (bb\<lparr>bb_prunes := bb_prunes bb @ [PruneBlock h, PruneUndo h]\<rparr>) s0 = (Inr bb1, s1)"
    by (cases r) auto
  note IH = Cons.IH [OF rest]
  have same: "chain_hash_at s0 j = chain_hash_at s j" for j
    using chain_hash_at_recency [OF G(2)] .
  have "recency_only s s1"
    using recency_only_trans [OF G(2)] IH by blast
  moreover have ch: "chain_hash_at s i = Some h"
    using G(1) r by simp
  ultimately show ?case
    using IH same prune_ops_recency [OF G(2)] by (simp add: prune_ops_def)
qed


lemma foldl_prunes:
  assumes "\<forall>x\<in>set ops. \<exists>h. x = PruneBlock h \<or> x = PruneUndo h"
  shows "bs_blocks (foldl apply_blob st ops) h = (if PruneBlock h \<in> set ops then None else bs_blocks st h)
       \<and> bs_undo (foldl apply_blob st ops) h = (if PruneUndo h \<in> set ops then None else bs_undo st h)"
  using assms
proof (induction ops rule: rev_induct)
  case Nil
  then show ?case by simp
next
  case (snoc x xs)
  then obtain g where "x = PruneBlock g \<or> x = PruneUndo g" by auto
  then show ?case
    using snoc by (cases "g = h") auto
qed

lemma prune_ops_prunes: "\<forall>x\<in>set (prune_ops s hs). \<exists>h. x = PruneBlock h \<or> x = PruneUndo h"
  by (auto simp: prune_ops_def split: option.splits)

lemma prune_ops_mem:
  "chain_hash_at s i = Some h \<Longrightarrow> i \<in> set hs \<Longrightarrow>
     PruneBlock h \<in> set (prune_ops s hs) \<and> PruneUndo h \<in> set (prune_ops s hs)"
  by (force simp: prune_ops_def)

lemma blobbatch_commit_ok:
  assumes "blobbatch_commit bb s = (Inr u, s1)"
  shows "blocks s1 = map_option (\<lambda>st. foldl apply_blob st (bb_writes bb @ bb_prunes bb)) (blocks s)"
    and "db s1 = db s" and "options s1 = options s"
  using assms
  by (auto simp: blobbatch_commit_def io_next_def split: io_outcome.splits list.splits)

lemma prune_flag_ok:
  assumes "prune_flag s = (Inr u, s1)"
  shows "blocks s1 = blocks s" and "opt_prune (options s1)"
    and "db_get (db s1) K_O = Some (VFlags ((flags_fromOptions (options s))\<lparr>fl_prune := True\<rparr>))"
  using assms
  by (auto simp: prune_flag_def db_write_def io_next_def Let_def batch_apply_def flags_fromOptions_def
      split: io_outcome.splits if_splits prod.splits sum.splits)

lemma c5_flags: "getFlags (c5_state n) = Inr (Some (flags_fromOptions sample_options))"
  by (simp add: getFlags_def c5_state_def sample_defs db_get_def)

lemma le32_u32le_small [simp]: "le32 (u32le 2) = 2" "le32 (u32le 3) = 3"
  by (simp_all add: le32_def u32le_def)

lemma c5_height: "n = 2 \<or> n = 3 \<Longrightarrow>
    getHeight (ById (cs_tip (state (c5_state n)))) (c5_state n) = (Inr n, c5_state n)"
  by (auto simp: getHeight_def c5_state_def sample_defs db_get_def lru_get_def readUInt32LE_def
        buffer_of_def le32_def u32le_def)

lemma c5_misc:
  "\<not> opt_spv (options (c5_state n))" "\<not> fl_prune (flags_fromOptions sample_options)"
  "keepBlocks (network (c5_state n)) = 2" "pruneAfterHeight (network (c5_state n)) = 0"
  "blocks (c5_state n) = Some c5_store"
  by (simp_all add: c5_state_def sample_defs flags_fromOptions_def)

lemma c5_prune3:
  "fst (prune (c5_state 3)) = Inr True"
  "blocks (snd (prune (c5_state 3))) =
     Some (c5_store\<lparr>bs_blocks := (bs_blocks c5_store)([11] := None),
                    bs_undo := (bs_undo c5_store)([11] := None)\<rparr>)"
  "db_get (db (snd (prune (c5_state 3)))) K_O
     = Some (VFlags ((flags_fromOptions sample_options)\<lparr>fl_prune := True\<rparr>))"
  by (simp_all add: prune_def c5_flags c5_height c5_misc bindE_def Let_def getHash_def
        lru_get_def blobbatch_commit_def prune_flag_def db_write_def io_next_def
        empty_blobbatch_def batch_apply_def flags_fromOptions_def buffer_of_def,
      simp_all add: c5_state_def sample_defs db_get_def flags_fromOptions_def db_put_def
        buffer_of_def batch_apply_def)

text \<open>
  C5 as stated fails where \<open>end = start\<close>: with the tip at height 3, \<open>keepBlocks = 2\<close>
  and \<open>pruneAfterHeight = 0\<close>, \<open>prune\<close> returns true, removes the block at height 1 and
  stores the prune flag.
\<close>

theorem prune_end_equals_start_counterexample:
  "fst (getHeight (ById (cs_tip (state (c5_state 3)))) (c5_state 3)) = Inr 3
   \<and> 3 - keepBlocks (network (c5_state 3)) \<le> pruneAfterHeight (network (c5_state 3)) + 1
   \<and> fst (prune (c5_state 3)) = Inr True
   \<and> map_option (\<lambda>st. bs_blocks st [11]) (blocks (c5_state 3)) = Some (Some blk11)
   \<and> map_option (\<lambda>st. bs_blocks st [11]) (blocks (snd (prune (c5_state 3)))) = Some None
   \<and> db_get (db (c5_state 3)) K_O = Some (VFlags (flags_fromOptions sample_options))
   \<and> db_get (db (snd (prune (c5_state 3)))) K_O
        = Some (VFlags ((flags_fromOptions sample_options)\<lparr>fl_prune := True\<rparr>))"
  using c5_flags [of 3]
  by (simp add: c5_height c5_misc c5_prune3 c5_store_def getFlags_def split: option.splits dbval.splits)

lemma prune_loop_total:
  assumes "\<forall>i\<in>set hs. chain_hash_at s i \<noteq> None"
  shows "\<exists>s1. prune_loop hs bb s = (Inr (bb\<lparr>bb_prunes := bb_prunes bb @ prune_ops s hs\<rparr>), s1)
           \<and> recency_only s s1"
  using assms
proof (induction hs arbitrary: bb s)
  case Nil
  then show ?case by (simp add: prune_ops_def)
next
  case (Cons i hs)
  obtain r s0 where g: "getHash (ByHeight i) s = (r, s0)"
    by (cases "getHash (ByHeight i) s")
  note G = getHash_ByHeight [OF g]
  from Cons.prems G(1) obtain h where h: "chain_hash_at s i = Some h" and r: "r = Some h"
    by auto
  have same: "chain_hash_at s0 j = chain_hash_at s j" for j
    using chain_hash_at_recency [OF G(2)] .
  from Cons.prems same have "\<forall>j\<in>set hs. chain_hash_at s0 j \<noteq> None" by simp
  from Cons.IH [OF this, of "bb\<lparr>bb_prunes := bb_prunes bb @ [PruneBlock h, PruneUndo h]\<rparr>"]
  obtain s1 where
    l: "prune_loop hs (bb\<lparr>bb_prunes := bb_prunes bb @ [PruneBlock h, PruneUndo h]\<rparr>) s0
          = (Inr (bb\<lparr>bb_prunes := (bb_prunes bb @ [PruneBlock h, PruneUndo h]) @ prune_ops s0 hs\<rparr>),
             s1)"
    and rr: "recency_only s0 s1"
    by auto
  have "prune_loop (i # hs) bb s
          = (Inr (bb\<lparr>bb_prunes := bb_prunes bb @ prune_ops s (i # hs)\<rparr>), s1)"
    using g r l h prune_ops_recency [OF G(2), of hs] by (simp add: prune_ops_def)
  with recency_only_trans [OF G(2) rr] show ?case by blast
qed

lemma prune_loop_fail:
  assumes "\<exists>i\<in>set hs. chain_hash_at s i = None"
  shows "\<exists>s1. prune_loop hs bb s = (Inl (Error ''Cannot find hash.''), s1) \<and> recency_only s s1"
  using assms
proof (induction hs arbitrary: bb s)
  case Nil
  then show ?case by simp
next
  case (Cons i hs)
  obtain r s0 where g: "getHash (ByHeight i) s = (r, s0)"
    by (cases "getHash (ByHeight i) s")
  note G = getHash_ByHeight [OF g]
  show ?case
  proof (cases r)
    case None
    with g G(2) show ?thesis by auto
  next
    case (Some h)
    with G(1) Cons.prems have "\<exists>j\<in>set hs. chain_hash_at s j = None" by auto
    then have "\<exists>j\<in>set hs. chain_hash_at s0 j = None"
      using chain_hash_at_recency [OF G(2)] by simp
    from Cons.IH [OF this, of "bb\<lparr>bb_prunes := bb_prunes bb @ [PruneBlock h, PruneUndo h]\<rparr>"]
    obtain s1 where
      l: "prune_loop hs (bb\<lparr>bb_prunes := bb_prunes bb @ [PruneBlock h, PruneUndo h]\<rparr>) s0
            = (Inl (Error ''Cannot find hash.''), s1)"
      and rr: "recency_only s0 s1"
      by auto
    have "prune_loop (i # hs) bb s = (Inl (Error ''Cannot find hash.''), s1)"
      using g Some l by simp
    with recency_only_trans [OF G(2) rr] show ?thesis by blast
  qed
qed

lemma writes_succeed_2:
  "writes_succeed 2 s =
     (case io_script s of
        [] \<Rightarrow> True
      | r # rs \<Rightarrow> r = IoOk \<and> (case rs of [] \<Rightarrow> True | r2 # rs2 \<Rightarrow> r2 = IoOk))"
  by (simp add: writes_succeed_def numeral_2_eq_2 split: list.splits)

lemma prune_writes_ok:
  assumes "writes_succeed 2 s" and "blocks s = Some st"
  shows "fst (bindE (blobbatch_commit bb s) (\<lambda>_ s3. bindE (prune_flag s3) (\<lambda>_ s4. (Inr True, s4))))
           = Inr True"
    and "blocks (snd (bindE (blobbatch_commit bb s)
                   (\<lambda>_ s3. bindE (prune_flag s3) (\<lambda>_ s4. (Inr True, s4)))))
           = Some (foldl apply_blob st (bb_writes bb @ bb_prunes bb))"
    and "opt_prune (options (snd (bindE (blobbatch_commit bb s)
                   (\<lambda>_ s3. bindE (prune_flag s3) (\<lambda>_ s4. (Inr True, s4))))))"
    and "db_get (db (snd (bindE (blobbatch_commit bb s)
                   (\<lambda>_ s3. bindE (prune_flag s3) (\<lambda>_ s4. (Inr True, s4)))))) K_O
           = Some (VFlags ((flags_fromOptions (options s))\<lparr>fl_prune := True\<rparr>))"
  using assms
  by (auto simp: writes_succeed_2 blobbatch_commit_def prune_flag_def db_write_def io_next_def
        Let_def batch_apply_def flags_fromOptions_def bindE_def
      split: list.splits io_outcome.splits)

lemma prune_writes_fail:
  assumes "\<not> writes_succeed 2 s"
  shows "fst (bindE (blobbatch_commit bb s) (\<lambda>_ s3. bindE (prune_flag s3) (\<lambda>_ s4. (Inr True, s4))))
           = Inl IOError"
    and "db (snd (bindE (blobbatch_commit bb s)
                   (\<lambda>_ s3. bindE (prune_flag s3) (\<lambda>_ s4. (Inr True, s4))))) = db s"
  using assms
  by (auto simp: writes_succeed_2 blobbatch_commit_def prune_flag_def db_write_def io_next_def
        Let_def batch_apply_def flags_fromOptions_def bindE_def
      split: list.splits io_outcome.splits)


text \<open>
  C5 (amended). When the chain is not SPV and not already pruned, \<open>prune\<close> reads the tip
  height and, with \<open>end = tip.height - keepBlocks\<close> and \<open>start = pruneAfterHeight + 1\<close>,
  returns false whenever \<open>end < start\<close> (that is, \<open>tip.height \<le> pruneAfterHeight +
  keepBlocks\<close>), leaving the key-value store, the blob store, the in-memory state and the
  options as they were. Otherwise, also when \<open>end = start\<close>, it never returns false, and
  with a blob store:
  \<^item> when every height from \<open>start\<close> to \<open>end\<close> has a main-chain hash and the two writes
    (the blob batch, then the flags) succeed, it returns true, the block and undo blobs
    of these hashes are gone and the stored flags carry \<open>prune\<close>;
  \<^item> when a height in that range has no main-chain hash it throws "Cannot find hash."
    and nothing is written;
  \<^item> when every height has its hash and one of the two writes fails it rethrows the
    failure and the flags are not stored.
\<close>

theorem prune_boundary:
  assumes nspv: "\<not> opt_spv (options s)"
    and fl: "getFlags s = Inr (Some flags)" and np: "\<not> fl_prune flags"
    and gh: "getHeight (ById (cs_tip (state s))) s = (Inr height, s1)"
  shows "(height - keepBlocks (network s) < pruneAfterHeight (network s) + 1 \<longrightarrow>
           prune s = (Inr False, s1) \<and> db s1 = db s \<and> blocks s1 = blocks s
           \<and> state s1 = state s \<and> treeState s1 = treeState s \<and> options s1 = options s)
       \<and> (pruneAfterHeight (network s) + 1 \<le> height - keepBlocks (network s) \<longrightarrow>
           (\<forall>r s'. prune s = (Inr r, s') \<longrightarrow> r))
       \<and> (pruneAfterHeight (network s) + 1 \<le> height - keepBlocks (network s)
           \<and> blocks s = Some st
           \<and> (\<forall>i\<in>{pruneAfterHeight (network s) + 1 .. height - keepBlocks (network s)}.
                chain_hash_at s i \<noteq> None)
           \<and> writes_succeed 2 s \<longrightarrow>
           (\<exists>s'. prune s = (Inr True, s') \<and> opt_prune (options s')
              \<and> db_get (db s') K_O
                   = Some (VFlags ((flags_fromOptions (options s))\<lparr>fl_prune := True\<rparr>))
              \<and> blocks s' = Some (foldl apply_blob st
                   (prune_ops s [pruneAfterHeight (network s) + 1 .. height - keepBlocks (network s)]))
              \<and> (\<forall>i\<in>{pruneAfterHeight (network s) + 1 .. height - keepBlocks (network s)}.
                   \<exists>h st'. chain_hash_at s i = Some h \<and> blocks s' = Some st'
                          \<and> bs_blocks st' h = None \<and> bs_undo st' h = None)))
       \<and> (pruneAfterHeight (network s) + 1 \<le> height - keepBlocks (network s)
           \<and> blocks s = Some st
           \<and> (\<exists>i\<in>{pruneAfterHeight (network s) + 1 .. height - keepBlocks (network s)}.
                chain_hash_at s i = None) \<longrightarrow>
           (\<exists>s'. prune s = (Inl (Error ''Cannot find hash.''), s')
              \<and> db s' = db s \<and> blocks s' = blocks s \<and> options s' = options s))
       \<and> (pruneAfterHeight (network s) + 1 \<le> height - keepBlocks (network s)
           \<and> blocks s = Some st
           \<and> (\<forall>i\<in>{pruneAfterHeight (network s) + 1 .. height - keepBlocks (network s)}.
                chain_hash_at s i \<noteq> None)
           \<and> \<not> writes_succeed 2 s \<longrightarrow>
           (\<exists>s'. prune s = (Inl IOError, s') \<and> db s' = db s))"
proof -
  let ?a = "pruneAfterHeight (network s) + 1"
  let ?b = "height - keepBlocks (network s)"
  let ?W = "\<lambda>bb s2. bindE (blobbatch_commit bb s2) (\<lambda>_ s3.
                       bindE (prune_flag s3) (\<lambda>_ s4. (Inr True, s4)))"
  note R = getHeight_recency [OF gh]
  note F = recency_only_fields [OF R]
  have part1: "prune s = (Inr False, s1) \<and> db s1 = db s \<and> blocks s1 = blocks s
           \<and> state s1 = state s \<and> treeState s1 = treeState s \<and> options s1 = options s"
    if lt: "?b < ?a"
  proof -
    from lt have le: "height \<le> pruneAfterHeight (network s1) + keepBlocks (network s1)"
      by (simp add: F)
    have "prune s = (Inr False, s1)"
      using nspv fl np gh le by (simp add: prune_def bindE_def)
    then show ?thesis by (simp add: F)
  qed
  have unfold: "prune s = bindE (prune_loop [?a..?b] empty_blobbatch s1) ?W"
    if ge: "?a \<le> ?b" and b: "blocks s = Some st0" for st0
  proof -
    have nle: "\<not> height \<le> pruneAfterHeight (network s1) + keepBlocks (network s1)"
      using ge by (simp add: F)
    show ?thesis
      using nspv fl np gh nle b by (simp add: prune_def bindE_def Let_def F)
  qed
  have W_true: "r" if "?W bb t = (Inr r, t')" for bb t r t'
    using that by (auto simp: bindE_def split: prod.splits sum.splits)
  have part2: "r" if ge: "?a \<le> ?b" and pr: "prune s = (Inr r, s')" for r s'
  proof (cases "blocks s")
    case None
    have nle: "\<not> height \<le> pruneAfterHeight (network s1) + keepBlocks (network s1)"
      using ge by (simp add: F)
    from None have "prune s = (Inl TypeError, s1)"
      using nspv fl np gh nle by (simp add: prune_def bindE_def Let_def F)
    with pr show ?thesis by simp
  next
    case (Some st0)
    from pr unfold [OF ge Some]
    have "bindE (prune_loop [?a..?b] empty_blobbatch s1) ?W = (Inr r, s')" by simp
    then obtain bb s2 where "?W bb s2 = (Inr r, s')"
      by (rule bindE_okD)
    then show ?thesis by (rule W_true)
  qed
  have part3: "\<exists>s'. prune s = (Inr True, s') \<and> opt_prune (options s')
              \<and> db_get (db s') K_O
                   = Some (VFlags ((flags_fromOptions (options s))\<lparr>fl_prune := True\<rparr>))
              \<and> blocks s' = Some (foldl apply_blob st (prune_ops s [?a..?b]))
              \<and> (\<forall>i\<in>{?a..?b}.
                   \<exists>h st'. chain_hash_at s i = Some h \<and> blocks s' = Some st'
                          \<and> bs_blocks st' h = None \<and> bs_undo st' h = None)"
    if ge: "?a \<le> ?b" and b: "blocks s = Some st"
      and hs: "\<forall>i\<in>{?a..?b}. chain_hash_at s i \<noteq> None" and ws: "writes_succeed 2 s"
  proof -
    from hs have "\<forall>i\<in>set [?a..?b]. chain_hash_at s1 i \<noteq> None"
      using chain_hash_at_recency [OF R] by simp
    from prune_loop_total [OF this, of empty_blobbatch] obtain s2 where
      l: "prune_loop [?a..?b] empty_blobbatch s1
            = (Inr (empty_blobbatch\<lparr>bb_prunes := bb_prunes empty_blobbatch @ prune_ops s1 [?a..?b]\<rparr>),
               s2)"
      and R2: "recency_only s1 s2" by blast
    note F2 = recency_only_fields [OF R2]
    let ?bb = "empty_blobbatch\<lparr>bb_prunes := bb_prunes empty_blobbatch @ prune_ops s1 [?a..?b]\<rparr>"
    have ws2: "writes_succeed 2 s2" using ws by (simp add: writes_succeed_def F F2)
    have b2: "blocks s2 = Some st" using b by (simp add: F F2)
    note W = prune_writes_ok [OF ws2 b2, of ?bb]
    have p: "prune s = ?W ?bb s2"
      using unfold [OF ge b] l by (simp add: bindE_ret)
    have ops: "bb_writes ?bb @ bb_prunes ?bb = prune_ops s [?a..?b]"
      using prune_ops_recency [OF R] by (simp add: empty_blobbatch_def)
    let ?s' = "snd (?W ?bb s2)"
    have r1: "prune s = (Inr True, ?s')"
      using p W(1) by (metis prod.collapse)
    have bl: "blocks ?s' = Some (foldl apply_blob st (prune_ops s [?a..?b]))"
      using W(2) prune_ops_recency [OF R, of "[?a..?b]"] by (simp add: empty_blobbatch_def)
    have gone: "\<exists>h st'. chain_hash_at s i = Some h \<and> blocks ?s' = Some st'
                          \<and> bs_blocks st' h = None \<and> bs_undo st' h = None"
      if i: "i \<in> {?a..?b}" for i
    proof -
      from hs i have "chain_hash_at s i \<noteq> None" by blast
      then obtain h where h: "chain_hash_at s i = Some h" by (cases "chain_hash_at s i") auto
      have m: "PruneBlock h \<in> set (prune_ops s [?a..?b])" "PruneUndo h \<in> set (prune_ops s [?a..?b])"
        using prune_ops_mem [OF h, of "[?a..?b]"] i by simp_all
      have "bs_blocks (foldl apply_blob st (prune_ops s [?a..?b])) h = None"
           "bs_undo (foldl apply_blob st (prune_ops s [?a..?b])) h = None"
        using foldl_prunes [OF prune_ops_prunes [of s "[?a..?b]"], of st h] m by simp_all
      with h bl show ?thesis by blast
    qed
    have fo: "db_get (db ?s') K_O
                = Some (VFlags ((flags_fromOptions (options s))\<lparr>fl_prune := True\<rparr>))"
      using W(4) by (simp add: F F2)
    from r1 W(3) fo bl gone show ?thesis by blast
  qed
  have part4: "\<exists>s'. prune s = (Inl (Error ''Cannot find hash.''), s')
              \<and> db s' = db s \<and> blocks s' = blocks s \<and> options s' = options s"
    if ge: "?a \<le> ?b" and b: "blocks s = Some st"
      and hs: "\<exists>i\<in>{?a..?b}. chain_hash_at s i = None"
  proof -
    from hs have "\<exists>i\<in>set [?a..?b]. chain_hash_at s1 i = None"
      using chain_hash_at_recency [OF R] by simp
    from prune_loop_fail [OF this, of empty_blobbatch] obtain s2 where
      l: "prune_loop [?a..?b] empty_blobbatch s1 = (Inl (Error ''Cannot find hash.''), s2)"
      and R2: "recency_only s1 s2" by blast
    note F2 = recency_only_fields [OF R2]
    have "prune s = (Inl (Error ''Cannot find hash.''), s2)"
      using unfold [OF ge b] l by (simp add: bindE_err)
    then show ?thesis by (simp add: F F2)
  qed
  have part5: "\<exists>s'. prune s = (Inl IOError, s') \<and> db s' = db s"
    if ge: "?a \<le> ?b" and b: "blocks s = Some st"
      and hs: "\<forall>i\<in>{?a..?b}. chain_hash_at s i \<noteq> None" and ws: "\<not> writes_succeed 2 s"
  proof -
    from hs have "\<forall>i\<in>set [?a..?b]. chain_hash_at s1 i \<noteq> None"
      using chain_hash_at_recency [OF R] by simp
    from prune_loop_total [OF this, of empty_blobbatch] obtain s2 where
      l: "prune_loop [?a..?b] empty_blobbatch s1
            = (Inr (empty_blobbatch\<lparr>bb_prunes := bb_prunes empty_blobbatch @ prune_ops s1 [?a..?b]\<rparr>),
               s2)"
      and R2: "recency_only s1 s2" by blast
    note F2 = recency_only_fields [OF R2]
    let ?bb = "empty_blobbatch\<lparr>bb_prunes := bb_prunes empty_blobbatch @ prune_ops s1 [?a..?b]\<rparr>"
    have ws2: "\<not> writes_succeed 2 s2" using ws by (simp add: writes_succeed_def F F2)
    note W = prune_writes_fail [OF ws2, of ?bb]
    have p: "prune s = ?W ?bb s2"
      using unfold [OF ge b] l by (simp add: bindE_ret)
    have "prune s = (Inl IOError, snd (?W ?bb s2))"
      using p W(1) by (metis prod.collapse)
    moreover have "db (snd (?W ?bb s2)) = db s"
      using W(2) by (simp add: F F2)
    ultimately show ?thesis by blast
  qed
  show ?thesis
    using part1 part2 part3 part4 part5 by blast
qed


lemma c5_height4:
  "getHeight (ById (cs_tip (state (c5_state 4)))) (c5_state 4) = (Inr 4, c5_state 4)"
  by (auto simp: getHeight_def c5_state_def sample_defs db_get_def lru_get_def readUInt32LE_def
        buffer_of_def le32_def u32le_def)

lemma c5_hashes:
  "chain_hash_at (c5_state n) 1 = Some [11]" "chain_hash_at (c5_state n) 2 = None"
  by (simp_all add: chain_hash_at_def lru_lookup_def c5_state_def sample_defs db_get_def
        buffer_of_def)

lemma c5_writes: "writes_succeed 2 (c5_state n)"
  by (simp add: writes_succeed_def c5_state_def sample_defs)

theorem prune_boundary_witness:
  "prune (c5_state 2) = (Inr False, c5_state 2)
   \<and> (\<exists>s'. prune (c5_state 3) = (Inr True, s') \<and> opt_prune (options s')
          \<and> db_get (db s') K_O
               = Some (VFlags ((flags_fromOptions sample_options)\<lparr>fl_prune := True\<rparr>))
          \<and> (\<exists>st. blocks s' = Some st \<and> bs_blocks st [11] = None \<and> bs_undo st [11] = None))
   \<and> (\<exists>s'. prune (c5_state 4) = (Inl (Error ''Cannot find hash.''), s')
          \<and> db s' = db (c5_state 4) \<and> blocks s' = blocks (c5_state 4))"
proof -
  have o: "options (c5_state n) = sample_options" for n
    by (simp add: c5_state_def sample_defs)
  have r3: "\<forall>i\<in>{pruneAfterHeight (network (c5_state 3)) + 1 .. 3 - keepBlocks (network (c5_state 3))}.
              chain_hash_at (c5_state 3) i \<noteq> None"
    by (simp add: c5_misc c5_hashes)
  have r4: "\<exists>i\<in>{pruneAfterHeight (network (c5_state 4)) + 1 .. 4 - keepBlocks (network (c5_state 4))}.
              chain_hash_at (c5_state 4) i = None"
    by (rule bexI [of _ 2]) (simp_all add: c5_misc c5_hashes)
  have m3: "1 \<in> {pruneAfterHeight (network (c5_state 3)) + 1 .. 3 - keepBlocks (network (c5_state 3))}"
    by (simp add: c5_misc)
  note A = prune_boundary [OF c5_misc(1) c5_flags c5_misc(2) c5_height, of 2 c5_store]
  note B = prune_boundary [OF c5_misc(1) c5_flags c5_misc(2) c5_height, of 3 c5_store]
  note C = prune_boundary [OF c5_misc(1) c5_flags c5_misc(2) c5_height4, of c5_store]
  have a: "prune (c5_state 2) = (Inr False, c5_state 2)"
    using A by (simp add: c5_misc)
  from B r3 c5_writes [of 3] obtain s' where
    b1: "prune (c5_state 3) = (Inr True, s')" and b2: "opt_prune (options s')"
    and b3: "db_get (db s') K_O
               = Some (VFlags ((flags_fromOptions (options (c5_state 3)))\<lparr>fl_prune := True\<rparr>))"
    and b4: "\<forall>i\<in>{pruneAfterHeight (network (c5_state 3)) + 1 .. 3 - keepBlocks (network (c5_state 3))}.
               \<exists>h st'. chain_hash_at (c5_state 3) i = Some h \<and> blocks s' = Some st'
                          \<and> bs_blocks st' h = None \<and> bs_undo st' h = None"
    by (auto simp: c5_misc)
  from b4 m3 have "\<exists>h st'. chain_hash_at (c5_state 3) 1 = Some h \<and> blocks s' = Some st'
                          \<and> bs_blocks st' h = None \<and> bs_undo st' h = None"
    by blast
  then have b5: "\<exists>st. blocks s' = Some st \<and> bs_blocks st [11] = None \<and> bs_undo st [11] = None"
    by (auto simp: c5_hashes)
  from C r4 have c: "\<exists>s'. prune (c5_state 4) = (Inl (Error ''Cannot find hash.''), s')
          \<and> db s' = db (c5_state 4) \<and> blocks s' = blocks (c5_state 4)"
    by (auto simp: c5_misc)
  from a b1 b2 b3 b5 c show ?thesis
    by (auto simp: o)
qed


section \<open>The deployment table\<close>


lemma batch_apply_Put [simp]: "batch_apply [Put k v] m = db_put k v m"
  by (simp add: batch_apply_def)










section \<open>reset\<close>

text \<open>
  C7. When the look-up of the target completes and one of the preconditions is violated
  (there is no such entry, the entry is not on the main chain, the prune option is on, or
  the tree has a non-zero compaction height), \<open>reset\<close> throws the error of the first
  check that fails, in the order of the code: "Block not found.", "Cannot reset on
  alternate chain.", "Cannot reset when pruned.", "Cannot reset when tree is compacted."
  It throws before it opens a batch: the key-value store, the blob store, the tree, the
  in-memory state and tree state are as before (the look-up may only have filled the
  entry caches).
\<close>

theorem reset_fails_fast:
  assumes ge: "getEntry blk s = (Inr r, s1)"
    and bad: "r = None \<or> (\<exists>e. r = Some e \<and> \<not> fst (isMainChain e s1))
              \<or> opt_prune (options s) \<or> ts_compactionHeight (treeState s) \<noteq> 0"
  shows "\<exists>s'. reset blk s =
             Some (Inl (Error
               (if r = None then ''Block not found.''
                else if \<exists>e. r = Some e \<and> \<not> fst (isMainChain e s1)
                  then ''Cannot reset on alternate chain.''
                else if opt_prune (options s) then ''Cannot reset when pruned.''
                else ''Cannot reset when tree is compacted.'')), s')
           \<and> db s' = db s \<and> blocks s' = blocks s
           \<and> tree_root s' = tree_root s \<and> tree_roots s' = tree_roots s \<and> txn s' = txn s
           \<and> state s' = state s \<and> treeState s' = treeState s \<and> options s' = options s
           \<and> current s' = current s \<and> pending s' = pending s \<and> blocksBatch s' = blocksBatch s"
proof -
  note C1 = getEntry_caches [OF ge]
  note F1 = caches_only_fields [OF C1]
  show ?thesis
  proof (cases r)
    case None
    then have "reset blk s = Some (Inl (Error ''Block not found.''), s1)"
      using ge by (simp add: reset_def)
    then show ?thesis using F1 None by simp
  next
    case (Some e)
    obtain m s2 where mc: "isMainChain e s1 = (m, s2)"
      by (cases "isMainChain e s1")
    note C2 = caches_only_trans [OF C1 isMainChain_caches [OF mc]]
    note F2 = caches_only_fields [OF C2]
    show ?thesis
    proof (cases m)
      case False
      then have "reset blk s = Some (Inl (Error ''Cannot reset on alternate chain.''), s2)"
        using ge Some mc by (simp add: reset_def)
      then show ?thesis using F2 Some mc False by simp
    next
      case True
      with bad Some mc have pc: "opt_prune (options s2) \<or> ts_compactionHeight (treeState s2) \<noteq> 0"
        by (simp add: F2)
      show ?thesis
      proof (cases "opt_prune (options s2)")
        case True
        then have "reset blk s = Some (Inl (Error ''Cannot reset when pruned.''), s2)"
          using ge Some mc \<open>m\<close> by (simp add: reset_def)
        then show ?thesis using F2 Some mc \<open>m\<close> True by simp
      next
        case False
        then have "reset blk s = Some (Inl (Error ''Cannot reset when tree is compacted.''), s2)"
          using ge Some mc \<open>m\<close> pc by (simp add: reset_def)
        then show ?thesis using F2 Some mc \<open>m\<close> False by simp
      qed
    qed
  qed
qed


lemma c7_getEntry:
  "getEntry (ById [12]) c7_state
     = (Inr (Some e12), c7_state\<lparr>cacheHash := lru_set (cacheHash c7_state) [12] e12\<rparr>)"
  by (simp add: getEntry_def getEntryByHash_def c7_state_def sample_defs db_get_def lru_get_def
        e12_def)

lemma c7_alternate:
  "\<not> fst (isMainChain e12 (c7_state\<lparr>cacheHash := lru_set (cacheHash c7_state) [12] e12\<rparr>))"
  by (simp add: isMainChain_def isGenesis_def e12_def c7_state_def sample_defs lru_get_def
        getNextHash_def db_get_def)

theorem reset_fails_fast_witness:
  "\<exists>s'. reset (ById [12]) c7_state = Some (Inl (Error ''Cannot reset on alternate chain.''), s')
       \<and> db s' = db c7_state \<and> blocks s' = blocks c7_state
       \<and> tree_root s' = tree_root c7_state \<and> tree_roots s' = tree_roots c7_state
       \<and> txn s' = txn c7_state
       \<and> state s' = state c7_state \<and> treeState s' = treeState c7_state
       \<and> options s' = options c7_state
       \<and> current s' = current c7_state \<and> pending s' = pending c7_state
       \<and> blocksBatch s' = blocksBatch c7_state"
  using reset_fails_fast [OF c7_getEntry, of ] c7_alternate by simp


section \<open>The undo stream of disconnectBlock\<close>

lemma bindE_no_undo:
  assumes "no_undo_error m" and "\<And>a s. m = (Inr a, s) \<Longrightarrow> no_undo_error (f a s)"
  shows "no_undo_error (bindE m f)"
  using assms by (cases m) (auto simp: bindE_def no_undo_error_def split: sum.splits)

lemma thenE_no_undo:
  assumes "no_undo_error m" and "\<And>s. m = (Inr (), s) \<Longrightarrow> no_undo_error (f s)"
  shows "no_undo_error (thenE m f)"
  unfolding thenE_def using assms by (intro bindE_no_undo) auto

lemma forE_no_undo:
  assumes "\<And>x s. no_undo_error (f x s)"
  shows "no_undo_error (forE f xs s)"
proof (induction xs arbitrary: s)
  case Nil
  then show ?case by (simp add: no_undo_error_def)
next
  case (Cons x xs)
  show ?case by (simp, rule thenE_no_undo) (auto intro: assms Cons)
qed

lemma put_no_undo [simp]: "no_undo_error (put k v s)"
  by (simp add: put_def no_undo_error_def split: option.splits)

lemma del_no_undo [simp]: "no_undo_error (del k s)"
  by (simp add: del_def no_undo_error_def split: option.splits)

lemma with_pending_no_undo [simp]: "no_undo_error (with_pending f s)"
  by (simp add: with_pending_def no_undo_error_def split: option.splits)

lemma ret_no_undo [simp]: "no_undo_error (Inr a, s)"
  by (simp add: no_undo_error_def)

lemma if_no_undo:
  "(c \<Longrightarrow> no_undo_error a) \<Longrightarrow> (\<not> c \<Longrightarrow> no_undo_error b) \<Longrightarrow> no_undo_error (if c then a else b)"
  by simp

lemma getU32_case_no_undo:
  "(\<And>n. no_undo_error (g n)) \<Longrightarrow>
     no_undo_error (case getU32 c i of Inl e \<Rightarrow> (Inl e, s) | Inr n \<Rightarrow> g n)"
  by (auto simp: getU32_def no_undo_error_def)

lemma disconnect_output_no_undo [simp]: "no_undo_error (disconnect_output out s)"
  unfolding disconnect_output_def
  by (intro if_no_undo thenE_no_undo getU32_case_no_undo with_pending_no_undo ret_no_undo)

lemma index_inputs_no_undo [simp]: "no_undo_error (index_inputs a v p s)"
  unfolding index_inputs_def
  by (auto simp: no_undo_error_def put_def del_def split: option.splits)

lemma index_outputs_no_undo [simp]: "no_undo_error (index_outputs a h io s)"
  unfolding index_outputs_def
  by (auto simp: no_undo_error_def put_def del_def split: option.splits)

lemma unindexTX_no_undo [simp]: "no_undo_error (unindexTX t v s)"
  unfolding unindexTX_def
  by (intro if_no_undo thenE_no_undo forE_no_undo del_no_undo put_no_undo ret_no_undo
        index_inputs_no_undo index_outputs_no_undo)

text \<open>The loop over the inputs of one transaction takes one undo coin per input.\<close>

lemma disconnect_input_step:
  assumes "fst uv \<noteq> []"
  shows "no_undo_error (disconnect_input p uv s)"
    and "disconnect_input p uv s = (Inr uv1, s1) \<Longrightarrow> length (fst uv1) = length (fst uv) - 1"
  using assms
  by (auto simp: disconnect_input_def undo_apply_def no_undo_error_def bindE_def with_pending_def
      split: option.splits if_splits)

lemma disconnect_inputs_loop:
  assumes "length ps \<le> length (fst uv)"
  shows "no_undo_error (foldE disconnect_input ps uv s)
       \<and> (\<forall>uv1 s1. foldE disconnect_input ps uv s = (Inr uv1, s1)
             \<longrightarrow> length (fst uv1) = length (fst uv) - length ps)"
  using assms
proof (induction ps arbitrary: uv s)
  case Nil
  then show ?case by simp
next
  case (Cons p ps)
  then have ne: "fst uv \<noteq> []" by auto
  note S = disconnect_input_step [OF ne]
  show ?case
  proof (cases "disconnect_input p uv s")
    case (Pair r s0)
    show ?thesis
    proof (cases r)
      case (Inl e)
      with Pair S(1) [of p s] show ?thesis
        by (simp add: bindE_def no_undo_error_def)
    next
      case (Inr uv0)
      with Pair S(2) have l: "length (fst uv0) = length (fst uv) - 1" by simp
      with Cons.prems have "length ps \<le> length (fst uv0)" by simp
      from Cons.IH [OF this, of s0] l Cons.prems Pair Inr show ?thesis
        by (simp add: bindE_def)
    qed
  qed
qed


lemma disconnect_tx_step:
  assumes "undo_need it \<le> length (fst uv)"
  shows "no_undo_error (disconnect_tx entry it uv s)
       \<and> (\<forall>uv1 s1. disconnect_tx entry it uv s = (Inr uv1, s1)
             \<longrightarrow> length (fst uv1) = length (fst uv) - undo_need it)"
proof -
  let ?m = "if fst it = 0 then (Inr (fst uv, bits_undo (snd uv) (snd it)), s)
            else foldE disconnect_input (rev (tx_inputs (snd it))) uv s"
  have m: "no_undo_error ?m
       \<and> (\<forall>uv1 s1. ?m = (Inr uv1, s1) \<longrightarrow> length (fst uv1) = length (fst uv) - undo_need it)"
  proof (cases "fst it = 0")
    case True
    then show ?thesis by (auto simp: undo_need_def)
  next
    case False
    with assms have "length (rev (tx_inputs (snd it))) \<le> length (fst uv)"
      by (simp add: undo_need_def)
    from disconnect_inputs_loop [OF this, of s] False show ?thesis
      by (simp add: undo_need_def)
  qed
  have nu: "no_undo_error (disconnect_tx entry it uv s)"
    unfolding disconnect_tx_def Let_def
    using m by (intro bindE_no_undo forE_no_undo) simp_all
  have len: "length (fst uv1) = length (fst uv) - undo_need it"
    if "disconnect_tx entry it uv s = (Inr uv1, s1)" for uv1 s1
  proof -
    from that obtain uv0 s0 where a: "?m = (Inr uv0, s0)" and b: "fst uv1 = fst uv0"
      unfolding disconnect_tx_def Let_def bindE_def
      by (auto split: prod.splits sum.splits)
    with m show ?thesis by simp
  qed
  show ?thesis using nu len by blast
qed

lemma disconnect_txs_loop:
  assumes "sum_list (map undo_need its) \<le> length (fst uv)"
  shows "no_undo_error (foldE (disconnect_tx entry) its uv s)
       \<and> (\<forall>uv1 s1. foldE (disconnect_tx entry) its uv s = (Inr uv1, s1)
             \<longrightarrow> length (fst uv1) = length (fst uv) - sum_list (map undo_need its))"
  using assms
proof (induction its arbitrary: uv s)
  case Nil
  then show ?case by simp
next
  case (Cons it its)
  then have n1: "undo_need it \<le> length (fst uv)" by simp
  note S = disconnect_tx_step [OF n1, of entry s]
  show ?case
  proof (cases "disconnect_tx entry it uv s")
    case (Pair r s0)
    show ?thesis
    proof (cases r)
      case (Inl e)
      with Pair S show ?thesis
        by (simp add: bindE_def no_undo_error_def)
    next
      case (Inr uv0)
      with Pair S have l: "length (fst uv0) = length (fst uv) - undo_need it" by simp
      with Cons.prems have "sum_list (map undo_need its) \<le> length (fst uv0)" by simp
      from Cons.IH [OF this, of s0] l Cons.prems Pair Inr show ?thesis
        by (simp add: bindE_def)
    qed
  qed
qed

lemma undo_need_enumerate_Suc:
  "sum_list (map undo_need (enumerate (Suc n) ts)) = sum_list (map (\<lambda>t. length (tx_inputs t)) ts)"
  by (induction ts arbitrary: n) (simp_all add: undo_need_def)

lemma undo_need_block:
  "sum_list (map undo_need (rev (enumerate 0 (b_txs blk)))) = spent_inputs blk"
proof -
  have "sum_list (map undo_need (enumerate 0 ts)) = sum_list (map (\<lambda>t. length (tx_inputs t)) (tl ts))"
    for ts
    by (cases ts) (simp_all add: undo_need_def undo_need_enumerate_Suc)
  then show ?thesis
    by (simp add: spent_inputs_def rev_map [symmetric] sum_list_rev)
qed

lemma bindE_assert_never:
  assumes "\<And>a s1. m = (Inr a, s1) \<Longrightarrow> \<not> c a"
  shows "bindE m (\<lambda>a s1. if c a then x a s1 else y a s1) = bindE m y"
  using assms by (cases m) (auto simp: bindE_def split: sum.splits)

text \<open>
  C4. When the undo record of a block holds exactly one undo coin per input of its
  non-coinbase transactions, the loops of \<open>disconnectBlock\<close> never find the undo stream
  dry, and when they complete the stream is empty: the final assertion ("Undo coins data
  inconsistency.") never fires, so \<open>disconnectBlock\<close> is the same program without it.
\<close>

theorem disconnect_consumes_undo:
  assumes "getUndoCoins (b_hash blk) s = Inr undo"
    and "length undo = spent_inputs blk"
  shows "fst (disconnect_txs entry blk undo s1) \<noteq> Inl (AssertionError ''undo'')
       \<and> (\<forall>uv s2. disconnect_txs entry blk undo s1 = (Inr uv, s2) \<longrightarrow> fst uv = [])
       \<and> disconnectBlock entry blk s =
           (if opt_spv (options s) then (Inr new_CoinView, s)
            else
              bindE (with_pending (\<lambda>pd. cs_disconnect pd blk) s) (\<lambda>_ s1.
              bindE (disconnect_txs entry blk undo s1) (\<lambda>uv s2.
              bindE (saveView (snd uv) s2) (\<lambda>_ s3.
              bindE (blocksBatch_prune (PruneUndo (b_hash blk)) s3) (\<lambda>_ s4.
                disconnectNames (snd uv) entry s4)))))"
proof -
  have need: "sum_list (map undo_need (rev (enumerate 0 (b_txs blk))))
                \<le> length (fst (undo, new_CoinView))"
    using assms(2) by (simp add: undo_need_block)
  have loop: "fst (disconnect_txs entry blk undo t) \<noteq> Inl (AssertionError ''undo'')
       \<and> (\<forall>uv s2. disconnect_txs entry blk undo t = (Inr uv, s2) \<longrightarrow> fst uv = [])" for t
    using disconnect_txs_loop [OF need, of entry t] assms(2)
    by (simp add: disconnect_txs_def undo_need_block no_undo_error_def)
  have "bindE (disconnect_txs entry blk undo t) (\<lambda>uv s2.
               if fst uv \<noteq> [] then (Inl (AssertionError ''Undo coins data inconsistency.''), s2)
               else
                 bindE (saveView (snd uv) s2) (\<lambda>_ s3.
                 bindE (blocksBatch_prune (PruneUndo (b_hash blk)) s3) (\<lambda>_ s4.
                   disconnectNames (snd uv) entry s4)))
        = bindE (disconnect_txs entry blk undo t) (\<lambda>uv s2.
                 bindE (saveView (snd uv) s2) (\<lambda>_ s3.
                 bindE (blocksBatch_prune (PruneUndo (b_hash blk)) s3) (\<lambda>_ s4.
                   disconnectNames (snd uv) entry s4)))" for t
    using loop [of t] by (intro bindE_assert_never) auto
  then have "disconnectBlock entry blk s =
           (if opt_spv (options s) then (Inr new_CoinView, s)
            else
              bindE (with_pending (\<lambda>pd. cs_disconnect pd blk) s) (\<lambda>_ s1.
              bindE (disconnect_txs entry blk undo s1) (\<lambda>uv s2.
              bindE (saveView (snd uv) s2) (\<lambda>_ s3.
              bindE (blocksBatch_prune (PruneUndo (b_hash blk)) s3) (\<lambda>_ s4.
                disconnectNames (snd uv) entry s4)))))"
    using assms(1) by (simp add: disconnectBlock_def)
  with loop [of s1] show ?thesis by blast
qed

lemmas chain13_defs = blk13_def cb21_def tx22_def e13_def coinA_def plain_output_def view13_def
  tip12_state_def coins_fromTX_def

lemmas view_defs = view_getOutput_def view_getEntry_def view_addEntry_def view_removeTX_def
  undo_apply_def bits_undo_def new_CoinView_def coins_fromTX_def

lemmas disconnect_defs = disconnect_txs_def disconnect_tx_def disconnect_input_def
  disconnect_output_def unindexTX_def with_pending_def cs_add_def cs_spend_def cs_unburn_def
  isRegister_def isClaim_def locked_def types_NONE_def types_CLAIM_def types_REGISTER_def
  types_REVOKE_def bindE_def thenE_def

lemma c4_undo: "getUndoCoins (b_hash blk13) c4_state = Inr [coinA]"
  by (simp add: getUndoCoins_def c4_state_def tip12_state_def sample_defs batch_defs blk13_def)

lemma c4_spent: "length [coinA] = spent_inputs blk13"
  by (simp add: spent_inputs_def blk13_def tx22_def)

lemma c4_loop_ok: "\<exists>uv. fst (disconnect_txs e13 blk13 [coinA] c4_state) = Inr uv"
  by (simp add: disconnect_defs view_defs c4_state_def tip12_state_def sample_defs batch_defs
        blk13_def cb21_def tx22_def e13_def coinA_def plain_output_def)


theorem disconnect_consumes_undo_witness:
  "\<exists>v. fst (disconnect_txs e13 blk13 [coinA] c4_state) = Inr ([], v)"
proof -
  from c4_loop_ok obtain uv where a: "fst (disconnect_txs e13 blk13 [coinA] c4_state) = Inr uv" ..
  then have b: "disconnect_txs e13 blk13 [coinA] c4_state
                  = (Inr uv, snd (disconnect_txs e13 blk13 [coinA] c4_state))"
    by (metis prod.collapse)
  from disconnect_consumes_undo [OF c4_undo c4_spent, of e13 c4_state] b have "fst uv = []"
    by blast
  with a show ?thesis by (cases uv) auto
qed


section \<open>Steps of a batch body\<close>

lemma body_frame_refl [simp]: "body_frame s s"
  by (simp add: body_frame_def)

lemma body_frame_trans: "body_frame s s1 \<Longrightarrow> body_frame s1 s2 \<Longrightarrow> body_frame s s2"
  by (simp add: body_frame_def)

lemma appends_in_refl [simp]: "appends_in S s s"
  unfolding appends_in_def by (rule exI [of _ "[]"]) (simp add: option.map_ident)

lemma appends_in_trans:
  assumes "appends_in S s s1" and "appends_in S s1 s2"
  shows "appends_in S s s2"
proof -
  from assms(1) obtain n1 where a: "current s1 = map_option (\<lambda>ops. ops @ n1) (current s)"
    and b: "\<forall>x\<in>set n1. op_key x \<in> S"
    unfolding appends_in_def by blast
  from assms(2) obtain n2 where c: "current s2 = map_option (\<lambda>ops. ops @ n2) (current s1)"
    and d: "\<forall>x\<in>set n2. op_key x \<in> S"
    unfolding appends_in_def by blast
  have "current s2 = map_option (\<lambda>ops. ops @ (n1 @ n2)) (current s)"
    by (simp add: c a option.map_comp comp_def)
  moreover have "\<forall>x\<in>set (n1 @ n2). op_key x \<in> S"
    using b d by auto
  ultimately show ?thesis
    unfolding appends_in_def by blast
qed

lemma appends_in_mono: "appends_in S s s1 \<Longrightarrow> S \<subseteq> S' \<Longrightarrow> appends_in S' s s1"
  unfolding appends_in_def by blast

lemma db_get_batch_snoc:
  "db_get (batch_apply (ops @ [x]) m) k
     = (if op_key x = k then (case x of Put k v \<Rightarrow> Some v | Del k \<Rightarrow> None)
        else db_get (batch_apply ops m) k)"
  by (cases x) (auto simp: batch_apply_def op_key_def)

lemma db_get_batch_other:
  "\<forall>x\<in>set new. op_key x \<noteq> k \<Longrightarrow>
     db_get (batch_apply (ops @ new) m) k = db_get (batch_apply ops m) k"
proof (induction new rule: rev_induct)
  case Nil
  then show ?case by simp
next
  case (snoc x xs)
  have "db_get (batch_apply ((ops @ xs) @ [x]) m) k = db_get (batch_apply (ops @ xs) m) k"
    using snoc.prems by (subst db_get_batch_snoc) simp
  then show ?case using snoc by simp
qed

lemma staged_appends:
  assumes "appends_in S s s1" and "k \<notin> S"
  shows "staged s1 m k = staged s m k"
proof -
  from assms(1) obtain new where a: "current s1 = map_option (\<lambda>ops. ops @ new) (current s)"
    and b: "\<forall>x\<in>set new. op_key x \<in> S"
    unfolding appends_in_def by blast
  from b assms(2) have nk: "\<forall>x\<in>set new. op_key x \<noteq> k" by auto
  show ?thesis
  proof (cases "current s")
    case None
    with a show ?thesis by (simp add: staged_def)
  next
    case (Some ops)
    with a show ?thesis
      by (simp add: staged_def db_get_batch_other [OF nk])
  qed
qed

lemma put_ok:
  assumes "put k v s = (Inr u, s1)"
  shows "\<exists>ops. current s = Some ops \<and> s1 = s\<lparr>current := Some (ops @ [Put k v])\<rparr>"
  using assms by (auto simp: put_def split: option.splits)

lemma del_ok:
  assumes "del k s = (Inr u, s1)"
  shows "\<exists>ops. current s = Some ops \<and> s1 = s\<lparr>current := Some (ops @ [Del k])\<rparr>"
  using assms by (auto simp: del_def split: option.splits)

lemma put_staged:
  assumes "put k v s = (Inr u, s1)"
  shows "staged s1 m k' = (if k' = k then Some v else staged s m k')"
    and "body_frame s s1" and "appends_in {k} s s1"
    and "pending s1 = pending s" and "bitfield s1 = bitfield s"
proof -
  from put_ok [OF assms] obtain ops where c: "current s = Some ops"
    and e: "s1 = s\<lparr>current := Some (ops @ [Put k v])\<rparr>" by blast
  show "staged s1 m k' = (if k' = k then Some v else staged s m k')"
    by (auto simp: e c staged_def db_get_batch_snoc op_key_def)
  show "body_frame s s1" by (simp add: e body_frame_def)
  show "appends_in {k} s s1"
    unfolding appends_in_def by (rule exI [of _ "[Put k v]"]) (simp add: e c op_key_def)
  show "pending s1 = pending s" "bitfield s1 = bitfield s" by (simp_all add: e)
qed

lemma del_staged:
  assumes "del k s = (Inr u, s1)"
  shows "staged s1 m k' = (if k' = k then None else staged s m k')"
    and "body_frame s s1" and "appends_in {k} s s1"
    and "pending s1 = pending s" and "bitfield s1 = bitfield s"
proof -
  from del_ok [OF assms] obtain ops where c: "current s = Some ops"
    and e: "s1 = s\<lparr>current := Some (ops @ [Del k])\<rparr>" by blast
  show "staged s1 m k' = (if k' = k then None else staged s m k')"
    by (auto simp: e c staged_def db_get_batch_snoc op_key_def)
  show "body_frame s s1" by (simp add: e body_frame_def)
  show "appends_in {k} s s1"
    unfolding appends_in_def by (rule exI [of _ "[Del k]"]) (simp add: e c op_key_def)
  show "pending s1 = pending s" "bitfield s1 = bitfield s" by (simp_all add: e)
qed

lemma cs_shift_0 [simp]: "cs_shift 0 0 0 0 = (\<lambda>p. p)"
  by (simp add: cs_shift_def fun_eq_iff)

lemma cs_shift_comp [simp]:
  "cs_shift t c v b (cs_shift t' c' v' b' p) = cs_shift (t' + t) (c' + c) (v' + v) (b' + b) p"
  by (simp add: cs_shift_def)

lemma step_refl [simp]: "step S (\<lambda>p. p) s s"
  by (simp add: step_def option.map_ident)

lemma step_trans:
  assumes "step S f s s1" and "step S' g s1 s2"
  shows "step (S \<union> S') (\<lambda>p. g (f p)) s s2"
  using assms body_frame_trans [of s s1 s2]
    appends_in_trans [OF appends_in_mono [of S s s1 "S \<union> S'"] appends_in_mono [of S' s1 s2 "S \<union> S'"]]
  by (simp add: step_def option.map_comp comp_def)

lemma step_mono: "step S f s s1 \<Longrightarrow> S \<subseteq> S' \<Longrightarrow> step S' f s s1"
  by (auto simp: step_def intro: appends_in_mono)

lemma step_same_current:
  assumes "body_frame s s1" "current s1 = current s" "pending s1 = map_option f (pending s)"
  shows "step S f s s1"
proof -
  have "appends_in S s s1"
    unfolding appends_in_def by (rule exI [of _ "[]"]) (simp add: assms option.map_ident)
  then show ?thesis using assms by (simp add: step_def)
qed

lemma step_network: "step S f s s1 \<Longrightarrow> network s1 = network s"
  and step_options: "step S f s s1 \<Longrightarrow> options s1 = options s"
  and step_db: "step S f s s1 \<Longrightarrow> db s1 = db s"
  and step_blocks: "step S f s s1 \<Longrightarrow> blocks s1 = blocks s"
  and step_namerules: "step S f s s1 \<Longrightarrow> namerules s1 = namerules s"
  and step_pending: "step S f s s1 \<Longrightarrow> pending s1 = map_option f (pending s)"
  by (simp_all add: step_def body_frame_def)

lemma step_staged: "step S f s s1 \<Longrightarrow> k \<notin> S \<Longrightarrow> staged s1 m k = staged s m k"
  by (auto simp: step_def intro: staged_appends)

lemma put_step: "put k v s = (Inr u, s1) \<Longrightarrow> step {k} (\<lambda>p. p) s s1"
  using put_staged [of k v s u s1] by (simp add: step_def option.map_ident)

lemma del_step: "del k s = (Inr u, s1) \<Longrightarrow> step {k} (\<lambda>p. p) s s1"
  using del_staged [of k s u s1] by (simp add: step_def option.map_ident)

lemma forE_step:
  assumes ok: "forE h xs s = (Inr (), s1)"
    and each: "\<And>x s s1. x \<in> set xs \<Longrightarrow> h x s = (Inr (), s1) \<Longrightarrow>
                 step S (cs_shift 0 (c x) (v x) (b x)) s s1"
  shows "step S (cs_shift 0 (sum_list (map c xs)) (sum_list (map v xs)) (sum_list (map b xs))) s s1"
  using ok each
proof (induction xs arbitrary: s)
  case Nil
  then show ?case by simp
next
  case (Cons x xs)
  from Cons.prems(1) obtain s0 where a: "h x s = (Inr (), s0)"
    and r: "forE h xs s0 = (Inr (), s1)"
    by (auto elim: thenE_okD)
  have A: "step S (cs_shift 0 (c x) (v x) (b x)) s s0"
    using Cons.prems(2) [of x s s0] a by simp
  have B: "step S (cs_shift 0 (sum_list (map c xs)) (sum_list (map v xs)) (sum_list (map b xs)))
             s0 s1"
    using Cons.IH [OF r] Cons.prems(2) by simp
  from step_trans [OF A B] show ?case
    by simp
qed

lemma forE_quiet:
  assumes ok: "forE h xs s = (Inr (), s1)"
    and each: "\<And>x s s1. x \<in> set xs \<Longrightarrow> h x s = (Inr (), s1) \<Longrightarrow> step S (\<lambda>p. p) s s1"
  shows "step S (\<lambda>p. p) s s1"
proof -
  have "step S (cs_shift 0 (sum_list (map (\<lambda>x. 0) xs)) (sum_list (map (\<lambda>x. 0) xs))
           (sum_list (map (\<lambda>x. 0) xs))) s s1"
    by (rule forE_step [OF ok]) (simp add: each)
  then show ?thesis by simp
qed

lemma saveUpdates_step:
  "saveUpdates s = (Inr (), s1) \<Longrightarrow> step (keys_of {''v''}) (\<lambda>p. p) s s1"
  unfolding saveUpdates_def
  by (erule forE_quiet) (auto dest!: put_step elim!: step_mono simp: tbl_def keys_of_def)

lemma index_inputs_step:
  "index_inputs a v p s = (Inr (), s1) \<Longrightarrow> step index_tables (\<lambda>p. p) s s1"
  by (auto simp: index_inputs_def tbl_def keys_of_def index_tables_def
      split: option.splits if_splits dest!: put_step del_step elim!: step_mono)

lemma index_outputs_step:
  "index_outputs a h io s = (Inr (), s1) \<Longrightarrow> step index_tables (\<lambda>p. p) s s1"
  by (auto simp: index_outputs_def tbl_def keys_of_def index_tables_def
      split: option.splits if_splits dest!: put_step del_step elim!: step_mono)

lemma cs_spend_shift: "(\<lambda>pd. cs_spend pd out) = cs_shift 0 (- 1) (- o_value out) 0"
  by (simp add: cs_spend_def cs_shift_def fun_eq_iff)

lemma cs_add_shift: "(\<lambda>pd. cs_add pd out) = cs_shift 0 1 (o_value out) 0"
  by (simp add: cs_add_def cs_shift_def fun_eq_iff)

lemma cs_burn_shift: "(\<lambda>pd. cs_burn pd out) = cs_shift 0 1 0 (o_value out)"
  by (simp add: cs_burn_def cs_shift_def fun_eq_iff)

lemma cs_unburn_shift: "(\<lambda>pd. cs_unburn pd out) = cs_shift 0 (- 1) 0 (- o_value out)"
  by (simp add: cs_unburn_def cs_shift_def fun_eq_iff)

lemma cs_connect_shift: "(\<lambda>pd. cs_connect pd blk) = cs_shift (int (length (b_txs blk))) 0 0 0"
  by (simp add: cs_connect_def cs_shift_def fun_eq_iff)

lemma cs_disconnect_shift:
  "(\<lambda>pd. cs_disconnect pd blk) = cs_shift (- int (length (b_txs blk))) 0 0 0"
  by (simp add: cs_disconnect_def cs_shift_def fun_eq_iff)

lemma with_pending_step: "with_pending f s = (Inr u, s1) \<Longrightarrow> step S f s s1"
  by (rule step_same_current)
     (auto simp: with_pending_def body_frame_def split: option.splits)

lemma blocksBatch_write_step: "blocksBatch_write x s = (Inr u, s1) \<Longrightarrow> step S (\<lambda>p. p) s s1"
  by (rule step_same_current)
     (auto simp: blocksBatch_write_def body_frame_def option.map_ident split: option.splits)

lemma blocksBatch_prune_step: "blocksBatch_prune x s = (Inr u, s1) \<Longrightarrow> step S (\<lambda>p. p) s s1"
  by (rule step_same_current)
     (auto simp: blocksBatch_prune_def body_frame_def option.map_ident split: option.splits)

lemma step_shift_trans:
  assumes "step S (cs_shift t c v b) s s1" and "step S' (cs_shift t' c' v' b') s1 s2"
  shows "step (S \<union> S') (cs_shift (t + t') (c + c') (v + v') (b + b')) s s2"
  using step_trans [OF assms] by simp

lemma step_quiet_shift: "step S (\<lambda>p. p) s s1 \<Longrightarrow> step S (cs_shift 0 0 0 0) s s1"
  by simp

lemma step_shift_in:
  assumes "step S (cs_shift t c v b) s s1" and "step S' (cs_shift t' c' v' b') s1 s2"
    and "S \<subseteq> K" and "S' \<subseteq> K"
  shows "step K (cs_shift (t + t') (c + c') (v + v') (b + b')) s s2"
  using step_shift_trans [OF assms(1,2)] assms(3,4) by (auto elim: step_mono)

lemma step_quiet_in:
  assumes "step S (cs_shift t c v b) s s1" and "step S' (\<lambda>p. p) s1 s2"
    and "S \<subseteq> K" and "S' \<subseteq> K"
  shows "step K (cs_shift t c v b) s s2"
  using step_shift_in [OF assms(1) step_quiet_shift [OF assms(2)] assms(3,4)] by simp

lemma step_id_trans:
  assumes "step S (\<lambda>p. p) s s1" and "step S' f s1 s2" and "S \<subseteq> K" and "S' \<subseteq> K"
  shows "step K f s s2"
  using step_trans [OF assms(1,2)] assms(3,4) by (auto elim: step_mono)

lemma step_then_id:
  assumes "step S f s s1" and "step S' (\<lambda>p. p) s1 s2" and "S \<subseteq> K" and "S' \<subseteq> K"
  shows "step K f s s2"
  using step_trans [OF assms(1,2)] assms(3,4) by (auto elim: step_mono)

subsection \<open>Inputs and outputs\<close>

lemma connect_input_step:
  assumes "connect_input v p s = (Inr (), s1)"
  shows "step {} (cs_shift 0 (- in_coin (view_getOutput v p)) (- in_value (view_getOutput v p)) 0)
           s s1"
proof (cases "view_getOutput v p")
  case None
  with assms show ?thesis by (simp add: connect_input_def)
next
  case (Some out)
  show ?thesis
  proof (cases "locked (o_covenant out)")
    case True
    with assms Some show ?thesis by (simp add: connect_input_def in_coin_def in_value_def)
  next
    case False
    with assms Some have "with_pending (\<lambda>pd. cs_spend pd out) s = (Inr (), s1)"
      by (simp add: connect_input_def)
    from with_pending_step [OF this] Some False show ?thesis
      by (simp add: cs_spend_shift in_coin_def in_value_def)
  qed
qed

lemma connect_output_step:
  assumes "connect_output out s = (Inr (), s1)"
  shows "step {} (cs_shift 0 (out_coin out) (out_value out) (out_burned out)) s s1"
proof (cases "o_unspendable out")
  case True
  with assms show ?thesis
    by (simp add: connect_output_def out_coin_def out_value_def out_burned_def burnt_def
          credited_def)
next
  case False
  with assms obtain s0 where
    a: "(if isRegister (o_covenant out) then with_pending (\<lambda>pd. cs_burn pd out) s
         else (Inr (), s)) = (Inr (), s0)"
    and b: "(if locked (o_covenant out) then (Inr (), s0)
             else if isClaim (o_covenant out) then
               (case getU32 (o_covenant out) 5 of
                  Inl e \<Rightarrow> (Inl e, s0)
                | Inr n \<Rightarrow>
                    if n \<noteq> 1 then (Inr (), s0)
                    else with_pending (\<lambda>pd. cs_add pd out) s0)
             else with_pending (\<lambda>pd. cs_add pd out) s0) = (Inr (), s1)"
    by (auto simp: connect_output_def elim: thenE_okD)
  have A: "step {} (cs_shift 0 (if burnt out then 1 else 0) 0 (out_burned out)) s s0"
    using a False
    by (auto simp: burnt_def out_burned_def cs_burn_shift [symmetric] split: if_splits
        intro: with_pending_step)
  have B: "step {} (cs_shift 0 (if credited out then 1 else 0) (out_value out) 0) s0 s1"
    using b False
    by (auto simp: credited_def out_value_def cs_add_shift [symmetric]
        split: if_splits sum.splits intro: with_pending_step)
  from step_shift_trans [OF A B] show ?thesis
    by (simp add: out_coin_def)
qed

lemma disconnect_output_step:
  assumes "disconnect_output out s = (Inr (), s1)"
  shows "step {} (cs_shift 0 (- out_coin out) (- out_value out) (- out_burned out)) s s1"
proof (cases "o_unspendable out")
  case True
  with assms show ?thesis
    by (simp add: disconnect_output_def out_coin_def out_value_def out_burned_def burnt_def
          credited_def)
next
  case False
  with assms obtain s0 where
    a: "(if isRegister (o_covenant out) then with_pending (\<lambda>pd. cs_unburn pd out) s
         else (Inr (), s)) = (Inr (), s0)"
    and b: "(if locked (o_covenant out) then (Inr (), s0)
             else if isClaim (o_covenant out) then
               (case getU32 (o_covenant out) 5 of
                  Inl e \<Rightarrow> (Inl e, s0)
                | Inr n \<Rightarrow>
                    if n \<noteq> 1 then (Inr (), s0)
                    else with_pending (\<lambda>pd. cs_spend pd out) s0)
             else with_pending (\<lambda>pd. cs_spend pd out) s0) = (Inr (), s1)"
    by (auto simp: disconnect_output_def elim: thenE_okD)
  have A: "step {} (cs_shift 0 (- (if burnt out then 1 else 0)) 0 (- out_burned out)) s s0"
    using a False
    by (auto simp: burnt_def out_burned_def cs_unburn_shift [symmetric] split: if_splits
        intro: with_pending_step)
  have B: "step {} (cs_shift 0 (- (if credited out then 1 else 0)) (- out_value out) 0) s0 s1"
    using b False
    by (auto simp: credited_def out_value_def cs_spend_shift [symmetric]
        split: if_splits sum.splits intro: with_pending_step)
  from step_shift_trans [OF A B] show ?thesis
    by (simp add: out_coin_def)
qed

lemma sum_list_neg: "sum_list (map (\<lambda>x. - f x) xs) = - (sum_list (map f xs) :: int)"
  by (induction xs) simp_all

subsection \<open>The transaction index\<close>

lemma indexTX_step:
  assumes "indexTX t v entry i s = (Inr (), s1)"
  shows "step index_tables (\<lambda>p. p) s s1"
proof -
  from assms obtain s2 where
    a: "(if opt_indexTX (options s)
         then thenE (put (K_t (tx_hash t)) (VMeta t (e_hash entry) (e_height entry) i) s) (\<lambda>s1.
               if opt_indexAddress (options s1)
               then forE (\<lambda>addr. put (K_T addr (tx_hash t)) VNull) (tx_getHashes t v) s1
               else (Inr (), s1))
         else (Inr (), s)) = (Inr (), s2)"
    and b: "(if \<not> opt_indexAddress (options s2) then (Inr (), s2)
          else
            thenE (if \<not> tx_coinbase t then forE (index_inputs False v) (tx_inputs t) s2
                   else (Inr (), s2))
              (forE (index_outputs True (tx_hash t)) (enumerate 0 (tx_outputs t)))) = (Inr (), s1)"
    unfolding indexTX_def by (erule thenE_okD)
  have A: "step index_tables (\<lambda>p. p) s s2"
  proof (cases "opt_indexTX (options s)")
    case False
    with a show ?thesis by simp
  next
    case True
    with a obtain s3 where p: "put (K_t (tx_hash t)) (VMeta t (e_hash entry) (e_height entry) i) s
        = (Inr (), s3)"
      and q: "(if opt_indexAddress (options s3)
               then forE (\<lambda>addr. put (K_T addr (tx_hash t)) VNull) (tx_getHashes t v) s3
               else (Inr (), s3)) = (Inr (), s2)"
      by (auto elim: thenE_okD)
    have P: "step index_tables (\<lambda>p. p) s s3"
      using put_step [OF p] by (rule step_mono) (simp add: tbl_def index_tables_def keys_of_def)
    have Q: "step index_tables (\<lambda>p. p) s3 s2"
    proof (cases "opt_indexAddress (options s3)")
      case False
      with q show ?thesis by simp
    next
      case True
      with q have "forE (\<lambda>addr. put (K_T addr (tx_hash t)) VNull) (tx_getHashes t v) s3
          = (Inr (), s2)" by simp
      then show ?thesis
        by (rule forE_quiet)
           (auto dest!: put_step elim: step_mono simp: tbl_def index_tables_def keys_of_def)
    qed
    from step_trans [OF P Q] show ?thesis by simp
  qed
  have B: "step index_tables (\<lambda>p. p) s2 s1"
  proof (cases "opt_indexAddress (options s2)")
    case False
    with b show ?thesis by simp
  next
    case True
    with b obtain s3 where p: "(if \<not> tx_coinbase t then forE (index_inputs False v) (tx_inputs t) s2
                   else (Inr (), s2)) = (Inr (), s3)"
      and q: "forE (index_outputs True (tx_hash t)) (enumerate 0 (tx_outputs t)) s3 = (Inr (), s1)"
      by (auto elim: thenE_okD)
    have P: "step index_tables (\<lambda>p. p) s2 s3"
    proof (cases "tx_coinbase t")
      case True
      with p show ?thesis by simp
    next
      case False
      with p have "forE (index_inputs False v) (tx_inputs t) s2 = (Inr (), s3)" by simp
      then show ?thesis
        by (rule forE_quiet) (auto dest!: index_inputs_step)
    qed
    have Q: "step index_tables (\<lambda>p. p) s3 s1"
      using q by (rule forE_quiet) (auto dest!: index_outputs_step)
    from step_trans [OF P Q] show ?thesis by simp
  qed
  from step_trans [OF A B] show ?thesis by simp
qed

lemma unindexTX_step:
  assumes "unindexTX t v s = (Inr (), s1)"
  shows "step index_tables (\<lambda>p. p) s s1"
proof -
  from assms obtain s2 where
    a: "(if opt_indexTX (options s)
         then thenE (del (K_t (tx_hash t)) s) (\<lambda>s1.
               if opt_indexAddress (options s1)
               then forE (\<lambda>addr. del (K_T addr (tx_hash t))) (tx_getHashes t v) s1
               else (Inr (), s1))
         else (Inr (), s)) = (Inr (), s2)"
    and b: "(if \<not> opt_indexAddress (options s2) then (Inr (), s2)
          else
            thenE (if \<not> tx_coinbase t then forE (index_inputs True v) (tx_inputs t) s2
                   else (Inr (), s2))
              (forE (index_outputs False (tx_hash t)) (enumerate 0 (tx_outputs t)))) = (Inr (), s1)"
    unfolding unindexTX_def by (erule thenE_okD)
  have A: "step index_tables (\<lambda>p. p) s s2"
  proof (cases "opt_indexTX (options s)")
    case False
    with a show ?thesis by simp
  next
    case True
    with a obtain s3 where p: "del (K_t (tx_hash t)) s = (Inr (), s3)"
      and q: "(if opt_indexAddress (options s3)
               then forE (\<lambda>addr. del (K_T addr (tx_hash t))) (tx_getHashes t v) s3
               else (Inr (), s3)) = (Inr (), s2)"
      by (auto elim: thenE_okD)
    have P: "step index_tables (\<lambda>p. p) s s3"
      using del_step [OF p] by (rule step_mono) (simp add: tbl_def index_tables_def keys_of_def)
    have Q: "step index_tables (\<lambda>p. p) s3 s2"
    proof (cases "opt_indexAddress (options s3)")
      case False
      with q show ?thesis by simp
    next
      case True
      with q have "forE (\<lambda>addr. del (K_T addr (tx_hash t))) (tx_getHashes t v) s3
          = (Inr (), s2)" by simp
      then show ?thesis
        by (rule forE_quiet)
           (auto dest!: del_step elim: step_mono simp: tbl_def index_tables_def keys_of_def)
    qed
    from step_trans [OF P Q] show ?thesis by simp
  qed
  have B: "step index_tables (\<lambda>p. p) s2 s1"
  proof (cases "opt_indexAddress (options s2)")
    case False
    with b show ?thesis by simp
  next
    case True
    with b obtain s3 where p: "(if \<not> tx_coinbase t then forE (index_inputs True v) (tx_inputs t) s2
                   else (Inr (), s2)) = (Inr (), s3)"
      and q: "forE (index_outputs False (tx_hash t)) (enumerate 0 (tx_outputs t)) s3 = (Inr (), s1)"
      by (auto elim: thenE_okD)
    have P: "step index_tables (\<lambda>p. p) s2 s3"
    proof (cases "tx_coinbase t")
      case True
      with p show ?thesis by simp
    next
      case False
      with p have "forE (index_inputs True v) (tx_inputs t) s2 = (Inr (), s3)" by simp
      then show ?thesis
        by (rule forE_quiet) (auto dest!: index_inputs_step)
    qed
    have Q: "step index_tables (\<lambda>p. p) s3 s1"
      using q by (rule forE_quiet) (auto dest!: index_outputs_step)
    from step_trans [OF P Q] show ?thesis by simp
  qed
  from step_trans [OF A B] show ?thesis by simp
qed

subsection \<open>The loops of connectBlock\<close>

lemma outs_Nil [simp]: "outs_coin [] = 0" "outs_value [] = 0" "outs_burned [] = 0"
  by (simp_all add: outs_coin_def outs_value_def outs_burned_def)

lemma outs_append [simp]:
  "outs_coin (xs @ ys) = outs_coin xs + outs_coin ys"
  "outs_value (xs @ ys) = outs_value xs + outs_value ys"
  "outs_burned (xs @ ys) = outs_burned xs + outs_burned ys"
  by (simp_all add: outs_coin_def outs_value_def outs_burned_def)

lemma ins_Nil [simp]: "ins_coin [] = 0" "ins_value [] = 0"
  by (simp_all add: ins_coin_def ins_value_def)

lemma ins_append [simp]:
  "ins_coin (xs @ ys) = ins_coin xs + ins_coin ys"
  "ins_value (xs @ ys) = ins_value xs + ins_value ys"
  by (simp_all add: ins_coin_def ins_value_def)

lemma undo_Nil [simp]: "undo_coin [] = 0" "undo_value [] = 0"
  by (simp_all add: undo_coin_def undo_value_def)

lemma undo_append [simp]:
  "undo_coin (xs @ ys) = undo_coin xs + undo_coin ys"
  "undo_value (xs @ ys) = undo_value xs + undo_value ys"
  by (simp_all add: undo_coin_def undo_value_def)

lemma undo_single:
  "undo_coin [c] = in_coin (Some (ce_output c))" "undo_value [c] = in_value (Some (ce_output c))"
  by (simp_all add: undo_coin_def undo_value_def ins_coin_def ins_value_def)

lemma outs_concat_rev:
  "outs_coin (concat (map f (rev xs))) = outs_coin (concat (map f xs))"
  "outs_value (concat (map f (rev xs))) = outs_value (concat (map f xs))"
  "outs_burned (concat (map f (rev xs))) = outs_burned (concat (map f xs))"
  by (induction xs) simp_all

lemma connect_inputs_step:
  assumes "forE (connect_input v) ps s = (Inr (), s1)"
  shows "step {} (cs_shift 0 (- ins_coin (map (view_getOutput v) ps))
                    (- ins_value (map (view_getOutput v) ps)) 0) s s1"
proof -
  have "step {} (cs_shift 0 (sum_list (map (\<lambda>p. - in_coin (view_getOutput v p)) ps))
           (sum_list (map (\<lambda>p. - in_value (view_getOutput v p)) ps))
           (sum_list (map (\<lambda>p. 0) ps))) s s1"
    using assms by (rule forE_step) (rule connect_input_step)
  then show ?thesis
    by (simp add: sum_list_neg ins_coin_def ins_value_def comp_def)
qed

lemma connect_outputs_step:
  assumes "forE connect_output outs s = (Inr (), s1)"
  shows "step {} (cs_shift 0 (outs_coin outs) (outs_value outs) (outs_burned outs)) s s1"
  unfolding outs_coin_def outs_value_def outs_burned_def
  using assms by (rule forE_step) (rule connect_output_step)

lemma disconnect_outputs_step:
  assumes "forE disconnect_output (rev outs) s = (Inr (), s1)"
  shows "step {} (cs_shift 0 (- outs_coin outs) (- outs_value outs) (- outs_burned outs)) s s1"
proof -
  have "step {} (cs_shift 0 (sum_list (map (\<lambda>x. - out_coin x) (rev outs)))
           (sum_list (map (\<lambda>x. - out_value x) (rev outs)))
           (sum_list (map (\<lambda>x. - out_burned x) (rev outs)))) s s1"
    using assms by (rule forE_step) (rule disconnect_output_step)
  then show ?thesis
    by (simp add: sum_list_neg outs_coin_def outs_value_def outs_burned_def rev_map [symmetric]
          sum_list_rev)
qed

lemma connect_tx_step:
  assumes "connect_tx entry v it s = (Inr (), s1)"
  shows "step index_tables
           (cs_shift 0
              (outs_coin (tx_outputs (snd it))
                 - (if fst it > 0 then ins_coin (map (view_getOutput v) (tx_inputs (snd it))) else 0))
              (outs_value (tx_outputs (snd it))
                 - (if fst it > 0 then ins_value (map (view_getOutput v) (tx_inputs (snd it))) else 0))
              (outs_burned (tx_outputs (snd it)))) s s1"
proof -
  from assms obtain sa sb where
    a: "(if fst it > 0 then forE (connect_input v) (tx_inputs (snd it)) s else (Inr (), s))
          = (Inr (), sa)"
    and b: "forE connect_output (tx_outputs (snd it)) sa = (Inr (), sb)"
    and c: "indexTX (snd it) v entry (fst it) sb = (Inr (), s1)"
    unfolding connect_tx_def by (auto elim!: thenE_okD)
  have A: "step {} (cs_shift 0
             (- (if fst it > 0 then ins_coin (map (view_getOutput v) (tx_inputs (snd it))) else 0))
             (- (if fst it > 0 then ins_value (map (view_getOutput v) (tx_inputs (snd it))) else 0))
             0) s sa"
    using a connect_inputs_step [of v "tx_inputs (snd it)" s sa] by (simp split: if_splits)
  note B = connect_outputs_step [OF b]
  note C = step_quiet_shift [OF indexTX_step [OF c]]
  from step_shift_trans [OF step_shift_trans [OF A B] C] show ?thesis
    by simp
qed

lemma connect_txs_step_from:
  assumes "forE (connect_tx entry v) (enumerate n txs) s = (Inr (), s1)"
  shows "step index_tables
           (cs_shift 0
              (outs_coin (concat (map tx_outputs txs))
                 - ins_coin (map (view_getOutput v)
                      (concat (map tx_inputs (if n = 0 then tl txs else txs)))))
              (outs_value (concat (map tx_outputs txs))
                 - ins_value (map (view_getOutput v)
                      (concat (map tx_inputs (if n = 0 then tl txs else txs)))))
              (outs_burned (concat (map tx_outputs txs)))) s s1"
  using assms
proof (induction txs arbitrary: n s)
  case Nil
  then show ?case by simp
next
  case (Cons t ts)
  from Cons.prems obtain s0 where a: "connect_tx entry v (n, t) s = (Inr (), s0)"
    and r: "forE (connect_tx entry v) (enumerate (Suc n) ts) s0 = (Inr (), s1)"
    by (auto elim: thenE_okD)
  note A = connect_tx_step [OF a]
  note B = Cons.IH [OF r]
  from step_shift_trans [OF A B] show ?case
    by (cases "n = 0") (simp_all add: algebra_simps)
qed

lemma connect_txs_step:
  assumes "forE (connect_tx entry v) (enumerate 0 (b_txs blk)) s = (Inr (), s1)"
  shows "step index_tables
           (cs_shift 0
              (outs_coin (blk_outputs blk) - ins_coin (map (view_getOutput v) (blk_inputs blk)))
              (outs_value (blk_outputs blk) - ins_value (map (view_getOutput v) (blk_inputs blk)))
              (outs_burned (blk_outputs blk))) s s1"
  using connect_txs_step_from [OF assms] by (simp add: blk_outputs_def blk_inputs_def)

subsection \<open>The loops of disconnectBlock\<close>

lemma view_getOutput_addEntry [simp]:
  "view_getOutput (view_addEntry v p c) p = Some (ce_output c)"
  by (simp add: view_getOutput_def view_getEntry_def view_addEntry_def update_conv' Let_def)

lemma disconnect_input_shift:
  assumes "disconnect_input p uv s = (Inr uv1, s1)"
  shows "fst uv \<noteq> []" and "fst uv1 = butlast (fst uv)"
    and "step {} (cs_shift 0 (undo_coin [last (fst uv)]) (undo_value [last (fst uv)]) 0) s s1"
proof -
  from assms show ne: "fst uv \<noteq> []"
    by (auto simp: disconnect_input_def undo_apply_def)
  let ?v1 = "view_addEntry (snd uv) p (last (fst uv))"
  let ?out = "ce_output (last (fst uv))"
  from assms ne have r: "(if locked (o_covenant ?out) then (Inr (butlast (fst uv), ?v1), s)
               else bindE (with_pending (\<lambda>pd. cs_add pd ?out) s)
                      (\<lambda>_ s1. (Inr (butlast (fst uv), ?v1), s1))) = (Inr uv1, s1)"
    by (simp add: disconnect_input_def undo_apply_def)
  then show "fst uv1 = butlast (fst uv)"
    by (auto split: if_splits elim!: bindE_okD)
  show "step {} (cs_shift 0 (undo_coin [last (fst uv)]) (undo_value [last (fst uv)]) 0) s s1"
  proof (cases "locked (o_covenant ?out)")
    case True
    with r show ?thesis by (simp add: undo_single in_coin_def in_value_def)
  next
    case False
    with r obtain u where "with_pending (\<lambda>pd. cs_add pd ?out) s = (Inr u, s1)"
      by (auto elim!: bindE_okD)
    from with_pending_step [OF this] False show ?thesis
      by (simp add: undo_single in_coin_def in_value_def cs_add_shift)
  qed
qed

lemma disconnect_inputs_shift:
  assumes "foldE disconnect_input ps uv s = (Inr uv1, s1)"
  shows "\<exists>used. fst uv = fst uv1 @ used \<and> length used = length ps
           \<and> step {} (cs_shift 0 (undo_coin used) (undo_value used) 0) s s1"
  using assms
proof (induction ps arbitrary: uv s)
  case Nil
  then show ?case by simp
next
  case (Cons p ps)
  from Cons.prems obtain uv0 s0 where a: "disconnect_input p uv s = (Inr uv0, s0)"
    and r: "foldE disconnect_input ps uv0 s0 = (Inr uv1, s1)"
    by (auto elim: bindE_okD)
  note A = disconnect_input_shift [OF a]
  from Cons.IH [OF r] obtain used where u: "fst uv0 = fst uv1 @ used"
    and l: "length used = length ps"
    and B: "step {} (cs_shift 0 (undo_coin used) (undo_value used) 0) s0 s1"
    by blast
  have e: "fst uv = fst uv1 @ (used @ [last (fst uv)])"
    using A(1,2) u by (metis append_assoc append_butlast_last_id)
  have "step {} (cs_shift 0 (undo_coin (used @ [last (fst uv)]))
          (undo_value (used @ [last (fst uv)])) 0) s s1"
    using step_shift_trans [OF A(3) B] by (simp add: add.commute)
  with e l show ?case
    by (intro exI [of _ "used @ [last (fst uv)]"]) simp
qed

lemma disconnect_tx_shift:
  assumes "disconnect_tx entry it uv s = (Inr uv1, s1)"
  shows "\<exists>used. fst uv = fst uv1 @ used \<and> length used = undo_need it
           \<and> step index_tables
               (cs_shift 0 (undo_coin used - outs_coin (tx_outputs (snd it)))
                  (undo_value used - outs_value (tx_outputs (snd it)))
                  (- outs_burned (tx_outputs (snd it)))) s s1"
proof -
  from assms obtain uv0 sa where
    a: "(if fst it = 0 then (Inr (fst uv, bits_undo (snd uv) (snd it)), s)
         else foldE disconnect_input (rev (tx_inputs (snd it))) uv s) = (Inr uv0, sa)"
    and b: "(let v2 = view_removeTX (snd uv0) (snd it) (e_height entry) in
          bindE (forE disconnect_output (rev (tx_outputs (snd it))) sa) (\<lambda>_ s2.
            bindE (unindexTX (snd it) v2 s2) (\<lambda>_ s3. (Inr (fst uv0, v2), s3)))) = (Inr uv1, s1)"
    unfolding disconnect_tx_def by (erule bindE_okD)
  from b obtain sb where
    c: "forE disconnect_output (rev (tx_outputs (snd it))) sa = (Inr (), sb)"
    and d: "unindexTX (snd it) (view_removeTX (snd uv0) (snd it) (e_height entry)) sb = (Inr (), s1)"
    and f: "fst uv1 = fst uv0"
    unfolding Let_def by (auto elim!: bindE_okD)
  have "\<exists>used. fst uv = fst uv0 @ used \<and> length used = undo_need it
           \<and> step {} (cs_shift 0 (undo_coin used) (undo_value used) 0) s sa"
  proof (cases "fst it = 0")
    case True
    with a show ?thesis
      by (intro exI [of _ "[]"]) (auto simp: undo_need_def)
  next
    case False
    with a have "foldE disconnect_input (rev (tx_inputs (snd it))) uv s = (Inr uv0, sa)" by simp
    from disconnect_inputs_shift [OF this] False show ?thesis
      by (simp add: undo_need_def)
  qed
  then obtain used where u: "fst uv = fst uv0 @ used" and l: "length used = undo_need it"
    and A: "step {} (cs_shift 0 (undo_coin used) (undo_value used) 0) s sa"
    by blast
  note B = disconnect_outputs_step [OF c]
  note C = step_quiet_shift [OF unindexTX_step [OF d]]
  have "step index_tables
               (cs_shift 0 (undo_coin used - outs_coin (tx_outputs (snd it)))
                  (undo_value used - outs_value (tx_outputs (snd it)))
                  (- outs_burned (tx_outputs (snd it)))) s s1"
    using step_shift_trans [OF step_shift_trans [OF A B] C] by simp
  with u l f show ?thesis by auto
qed

lemma disconnect_txs_shift_gen:
  assumes "foldE (disconnect_tx entry) its uv s = (Inr uv1, s1)"
  shows "\<exists>used. fst uv = fst uv1 @ used
           \<and> step index_tables
               (cs_shift 0 (undo_coin used - outs_coin (concat (map (\<lambda>it. tx_outputs (snd it)) its)))
                  (undo_value used - outs_value (concat (map (\<lambda>it. tx_outputs (snd it)) its)))
                  (- outs_burned (concat (map (\<lambda>it. tx_outputs (snd it)) its)))) s s1"
  using assms
proof (induction its arbitrary: uv s)
  case Nil
  then show ?case by simp
next
  case (Cons it its)
  from Cons.prems obtain uv0 s0 where a: "disconnect_tx entry it uv s = (Inr uv0, s0)"
    and r: "foldE (disconnect_tx entry) its uv0 s0 = (Inr uv1, s1)"
    by (auto elim: bindE_okD)
  from disconnect_tx_shift [OF a] obtain used0 where u0: "fst uv = fst uv0 @ used0"
    and A: "step index_tables
               (cs_shift 0 (undo_coin used0 - outs_coin (tx_outputs (snd it)))
                  (undo_value used0 - outs_value (tx_outputs (snd it)))
                  (- outs_burned (tx_outputs (snd it)))) s s0"
    by blast
  from Cons.IH [OF r] obtain used where u: "fst uv0 = fst uv1 @ used"
    and B: "step index_tables
               (cs_shift 0 (undo_coin used - outs_coin (concat (map (\<lambda>it. tx_outputs (snd it)) its)))
                  (undo_value used - outs_value (concat (map (\<lambda>it. tx_outputs (snd it)) its)))
                  (- outs_burned (concat (map (\<lambda>it. tx_outputs (snd it)) its)))) s0 s1"
    by blast
  have "step index_tables
          (cs_shift 0 (undo_coin (used @ used0)
               - outs_coin (concat (map (\<lambda>it. tx_outputs (snd it)) (it # its))))
             (undo_value (used @ used0)
               - outs_value (concat (map (\<lambda>it. tx_outputs (snd it)) (it # its))))
             (- outs_burned (concat (map (\<lambda>it. tx_outputs (snd it)) (it # its))))) s s1"
    using step_shift_trans [OF A B] by (simp add: algebra_simps)
  with u0 u show ?case
    by (intro exI [of _ "used @ used0"]) simp
qed

lemma disconnect_txs_shift:
  assumes "disconnect_txs entry blk undo s = (Inr uv1, s1)"
  shows "\<exists>used. undo = fst uv1 @ used
           \<and> step index_tables
               (cs_shift 0 (undo_coin used - outs_coin (blk_outputs blk))
                  (undo_value used - outs_value (blk_outputs blk))
                  (- outs_burned (blk_outputs blk))) s s1"
proof -
  have e: "map (\<lambda>it. tx_outputs (snd it)) (enumerate 0 (b_txs blk)) = map tx_outputs (b_txs blk)"
    using map_snd_enumerate [of 0 "b_txs blk"]
    by (metis (no_types, lifting) map_map comp_def map_eq_conv)
  from disconnect_txs_shift_gen [OF assms [unfolded disconnect_txs_def]] show ?thesis
    by (simp add: outs_concat_rev e blk_outputs_def)
qed

subsection \<open>The view, pruning and the names\<close>

lemma recency_step:
  assumes "recency_only s s1"
  shows "step S (\<lambda>p. p) s s1"
  using recency_only_fields [OF assms]
  by (intro step_same_current) (simp_all add: body_frame_def option.map_ident)

lemma run_op_step: "run_op x s = (Inr (), s1) \<Longrightarrow> step {op_key x} (\<lambda>p. p) s s1"
  by (cases x) (auto simp: run_op_def op_key_def dest: put_step del_step)

lemma saveView_ops_keys: "x \<in> set (saveView_ops v) \<Longrightarrow> op_key x \<in> keys_of {''c''}"
  by (auto simp: saveView_ops_def op_key_def keys_of_def tbl_def split: if_splits)

lemma db_get_apply_ops: "db_get (batch_apply ops m) k = apply_ops_at k ops (db_get m k)"
proof (induction ops arbitrary: m)
  case Nil
  then show ?case by (simp add: batch_apply_def)
next
  case (Cons x ops)
  have "batch_apply (x # ops) m = batch_apply ops (apply_op m x)"
    by (simp add: batch_apply_def)
  then show ?case
    using Cons [of "apply_op m x"] by (cases x) simp_all
qed

lemma apply_ops_at_untouched:
  "\<forall>x\<in>set ops. op_key x \<noteq> k \<Longrightarrow> apply_ops_at k ops old = old"
  by (induction ops arbitrary: old) (auto simp: op_key_def split: batch_op.splits)

lemma forE_run_op:
  assumes "forE run_op xs s = (Inr (), s1)"
  shows "staged s1 m k = apply_ops_at k xs (staged s m k)"
  using assms
proof (induction xs arbitrary: s)
  case Nil
  then show ?case by simp
next
  case (Cons x xs)
  from Cons.prems obtain s0 where a: "run_op x s = (Inr (), s0)"
    and r: "forE run_op xs s0 = (Inr (), s1)"
    by (auto elim: thenE_okD)
  have "staged s0 m k = (case x of
          Put k' v \<Rightarrow> if k' = k then Some v else staged s m k
        | Del k' \<Rightarrow> if k' = k then None else staged s m k)"
  proof (cases x)
    case (Put k' v)
    with a have "put k' v s = (Inr (), s0)" by (simp add: run_op_def)
    from put_staged(1) [OF this, of m k] Put show ?thesis by simp
  next
    case (Del k')
    with a have "del k' s = (Inr (), s0)" by (simp add: run_op_def)
    from del_staged(1) [OF this, of m k] Del show ?thesis by simp
  qed
  with Cons.IH [OF r] show ?case by simp
qed

lemma saveView_step:
  assumes "saveView v s = (Inr (), s1)"
  shows "step (keys_of {''c''} \<union> (if v_bits v \<noteq> [] then {K_f} else {})) (\<lambda>p. p) s s1"
    and "k \<noteq> K_f \<Longrightarrow> staged s1 m k = apply_ops_at k (saveView_ops v) (staged s m k)"
proof -
  let ?S = "keys_of {''c''} \<union> (if v_bits v \<noteq> [] then {K_f} else {})"
  from assms obtain sa where a: "forE run_op (saveView_ops v) s = (Inr (), sa)"
    and b: "(case bits_commit (v_bits v) (bitfield sa) of
               (False, fld) \<Rightarrow> (Inr (), sa)
             | (True, fld) \<Rightarrow> put K_f (VField fld) (sa\<lparr>bitfield := fld\<rparr>)) = (Inr (), s1)"
    unfolding saveView_def by (erule thenE_okD)
  have A: "step ?S (\<lambda>p. p) s sa"
    using a
    by (rule forE_quiet) (auto dest!: run_op_step saveView_ops_keys elim!: step_mono
          simp: keys_of_def)
  have B: "step ?S (\<lambda>p. p) sa s1 \<and> (k \<noteq> K_f \<longrightarrow> staged s1 m k = staged sa m k)"
  proof (cases "v_bits v = []")
    case True
    with b show ?thesis by (simp add: bits_commit_def)
  next
    case False
    let ?fld = "foldl (\<lambda>f ib. f(fst ib := snd ib)) (bitfield sa) (v_bits v)"
    from b False have p: "put K_f (VField ?fld) (sa\<lparr>bitfield := ?fld\<rparr>) = (Inr (), s1)"
      by (simp add: bits_commit_def)
    have P: "step ?S (\<lambda>p. p) sa (sa\<lparr>bitfield := ?fld\<rparr>)"
      by (rule step_same_current) (simp_all add: body_frame_def option.map_ident)
    have Q: "step ?S (\<lambda>p. p) (sa\<lparr>bitfield := ?fld\<rparr>) s1"
      using put_step [OF p] by (rule step_mono) (simp add: False)
    have "staged (sa\<lparr>bitfield := ?fld\<rparr>) m k = staged sa m k"
      by (simp add: staged_def)
    with step_trans [OF P Q] put_staged(1) [OF p, of m k] show ?thesis by simp
  qed
  from step_trans [OF A] B show "step ?S (\<lambda>p. p) s s1" by fastforce
  show "staged s1 m k = apply_ops_at k (saveView_ops v) (staged s m k)" if "k \<noteq> K_f"
    using B that forE_run_op [OF a, of m k] by simp
qed

lemma pruneBlock_step:
  assumes "pruneBlock entry s = (Inr (), s1)"
  shows "step S (\<lambda>p. p) s s1"
proof (cases "opt_spv (options s) \<or> \<not> opt_prune (options s)
              \<or> e_height entry - keepBlocks (network s) \<le> pruneAfterHeight (network s)")
  case True
  with assms have "s1 = s"
    by (cases "opt_spv (options s)"; cases "opt_prune (options s)")
       (simp_all add: pruneBlock_def Let_def)
  then show ?thesis by simp
next
  case False
  let ?h = "e_height entry - keepBlocks (network s)"
  obtain r s0 where g: "getHash (ByHeight ?h) s = (r, s0)"
    by (cases "getHash (ByHeight ?h) s")
  note G = recency_step [OF getHash_ByHeight(2) [OF g], of S]
  from assms False have
    "(case getHash (ByHeight ?h) s of
        (None, s1) \<Rightarrow> (Inr (), s1)
      | (Some h, s1) \<Rightarrow>
          thenE (blocksBatch_prune (PruneUndo h) s1) (blocksBatch_prune (PruneBlock h)))
       = (Inr (), s1)"
    by (simp add: pruneBlock_def Let_def)
  with g have c: "(case r of None \<Rightarrow> (Inr (), s0)
      | Some h \<Rightarrow> thenE (blocksBatch_prune (PruneUndo h) s0) (blocksBatch_prune (PruneBlock h)))
       = (Inr (), s1)"
    by simp
  show ?thesis
  proof (cases r)
    case None
    with c G show ?thesis by simp
  next
    case (Some h)
    with c have "thenE (blocksBatch_prune (PruneUndo h) s0) (blocksBatch_prune (PruneBlock h))
       = (Inr (), s1)" by simp
    then obtain sa where a: "blocksBatch_prune (PruneUndo h) s0 = (Inr (), sa)"
      and b: "blocksBatch_prune (PruneBlock h) sa = (Inr (), s1)"
      by (rule thenE_okD)
    from step_trans [OF G step_trans [OF blocksBatch_prune_step [OF a, of S]
        blocksBatch_prune_step [OF b, of S]]]
    show ?thesis by simp
  qed
qed

subsection \<open>Names\<close>

lemma pendingTreeState_commit_step:
  assumes "pendingTreeState_commit root height s = (Inr (), s1)"
  shows "step {K_s} (\<lambda>p. p) s s1"
proof -
  from assms obtain pt where pt: "pendingTreeState s = Some pt"
    by (auto simp: pendingTreeState_commit_def split: option.splits)
  obtain raw pt1 where c: "ts_commit pt root height = (raw, pt1)"
    by (cases "ts_commit pt root height")
  from assms pt c have p: "put K_s raw (s\<lparr>pendingTreeState := Some pt1\<rparr>) = (Inr (), s1)"
    by (simp add: pendingTreeState_commit_def)
  have P: "step {K_s} (\<lambda>p. p) s (s\<lparr>pendingTreeState := Some pt1\<rparr>)"
    by (rule step_same_current) (simp_all add: body_frame_def option.map_ident)
  from step_trans [OF P put_step [OF p]] show ?thesis by simp
qed

lemma saveNames'_step:
  assumes "saveNames' v entry revert s = (Inr (), s1)"
  shows "step (tree_keys (network s) entry) (\<lambda>p. p) s s1"
proof -
  let ?s0 = "s\<lparr>txn := foldl (txn_save (namerules s)) (txn s) (map snd (v_names v))\<rparr>"
  have P: "step (tree_keys (network s) entry) (\<lambda>p. p) s ?s0"
    by (rule step_same_current) (simp_all add: body_frame_def option.map_ident)
  show ?thesis
  proof (cases "tree_hit (network s) entry")
    case False
    with assms have "s1 = ?s0"
      by (auto simp: saveNames'_def Let_def tree_hit_def)
    with P show ?thesis by simp
  next
    case True
    with assms obtain sa where
      a: "(if revert then tree_inject (e_treeRoot entry) ?s0 else (Inr (), txn_commit ?s0))
            = (Inr (), sa)"
      and b: "pendingTreeState_commit (tree_root sa) (e_height entry) sa = (Inr (), s1)"
      by (auto simp: saveNames'_def Let_def tree_hit_def elim!: thenE_okD)
    have Q: "step (tree_keys (network s) entry) (\<lambda>p. p) ?s0 sa"
      using a
      by (intro step_same_current)
         (auto simp: tree_inject_def txn_commit_def Let_def body_frame_def option.map_ident
           split: if_splits)
    have R: "step (tree_keys (network s) entry) (\<lambda>p. p) sa s1"
      using pendingTreeState_commit_step [OF b] True
      by (simp add: tree_keys_def)
    from step_trans [OF P step_trans [OF Q R]] show ?thesis by simp
  qed
qed

lemma connectNames_step:
  assumes "connectNames v entry s = (Inr (), s1)"
  shows "step ({K_w (e_height entry)} \<union> tree_keys (network s) entry) (\<lambda>p. p) s s1"
proof -
  from assms obtain sa where
    a: "(if length (toNameUndo (namerules s) v) = 0 then del (K_w (e_height entry)) s
         else put (K_w (e_height entry)) (VNameUndo (toNameUndo (namerules s) v)) s) = (Inr (), sa)"
    and b: "saveNames' v entry False sa = (Inr (), s1)"
    unfolding connectNames_def Let_def by (erule thenE_okD)
  have A: "step {K_w (e_height entry)} (\<lambda>p. p) s sa"
    using a by (auto split: if_splits dest: put_step del_step)
  from step_trans [OF A saveNames'_step [OF b]] step_network [OF A] show ?thesis
    by simp
qed

lemma applyNameUndo_ok:
  assumes "applyNameUndo nd v s = (Inr v1, s1)"
  shows "s1 = s" and "v_map v1 = v_map v" and "v_bits v1 = v_bits v"
  using assms
  by (auto simp: applyNameUndo_def view_getNameState_def Let_def
      split: sum.splits option.splits prod.splits)

lemma applyNameUndo_loop:
  assumes "foldE applyNameUndo undo v s = (Inr v1, s1)"
  shows "s1 = s \<and> v_map v1 = v_map v \<and> v_bits v1 = v_bits v"
  using assms
proof (induction undo arbitrary: v)
  case Nil
  then show ?case by simp
next
  case (Cons nd undo)
  from Cons.prems obtain v0 s0 where a: "applyNameUndo nd v s = (Inr v0, s0)"
    and r: "foldE applyNameUndo undo v0 s0 = (Inr v1, s1)"
    by (auto elim: bindE_okD)
  from applyNameUndo_ok [OF a] Cons.IH [of v0] r show ?case by simp
qed

lemma disconnectNames_step:
  assumes "disconnectNames v entry s = (Inr v1, s1)"
  shows "step ({K_w (e_height entry)} \<union> tree_keys (network s) entry) (\<lambda>p. p) s s1"
    and "v_map v1 = v_map v" and "v_bits v1 = v_bits v"
    and "staged s1 m (K_w (e_height entry))
           = (if db_get (db s) (K_w (e_height entry)) = None
              then staged s m (K_w (e_height entry)) else None)"
proof -
  let ?k = "K_w (e_height entry)"
  from assms obtain v0 sa where
    a: "(case db_get (db s) ?k of
          None \<Rightarrow> (Inr v, s)
        | Some (VNameUndo undo) \<Rightarrow>
            bindE (foldE applyNameUndo undo v s) (\<lambda>v1 s1.
              bindE (del ?k s1) (\<lambda>_ s2. (Inr v1, s2)))
        | Some _ \<Rightarrow> (Inl EncodingError, s)) = (Inr v0, sa)"
    and b: "bindE (saveNames' v0 entry True sa) (\<lambda>_ s2. (Inr v0, s2)) = (Inr v1, s1)"
    unfolding disconnectNames_def by (erule bindE_okD)
  from b have b': "saveNames' v0 entry True sa = (Inr (), s1)" and v1: "v1 = v0"
    by (auto elim!: bindE_okD)
  have A: "step {?k} (\<lambda>p. p) s sa \<and> v_map v0 = v_map v \<and> v_bits v0 = v_bits v
           \<and> staged sa m ?k = (if db_get (db s) ?k = None then staged s m ?k else None)"
  proof (cases "db_get (db s) ?k")
    case None
    with a show ?thesis by simp
  next
    case (Some x)
    with a obtain undo where x: "x = VNameUndo undo"
      by (cases x) auto
    with a Some have "bindE (foldE applyNameUndo undo v s) (\<lambda>v1 s1.
              bindE (del ?k s1) (\<lambda>_ s2. (Inr v1, s2))) = (Inr v0, sa)"
      by simp
    then obtain v' s' where
      l: "foldE applyNameUndo undo v s = (Inr v', s')"
      and d: "bindE (del ?k s') (\<lambda>_ s2. (Inr v', s2)) = (Inr v0, sa)"
      by (rule bindE_okD)
    from d obtain u sb where d': "del ?k s' = (Inr u, sb)" and e: "(Inr v', sb) = (Inr v0, sa)"
      by (rule bindE_okD) blast
    from applyNameUndo_loop [OF l] have s': "s' = s" and vm: "v_map v' = v_map v"
      and vb: "v_bits v' = v_bits v" by simp_all
    from d' s' e have dl: "del ?k s = (Inr u, sa)" and v0: "v0 = v'" by simp_all
    from del_step [OF dl] del_staged(1) [OF dl, of m ?k] Some vm vb v0
    show ?thesis by simp
  qed
  note B = saveNames'_step [OF b']
  have A1: "step {?k} (\<lambda>p. p) s sa" using A by simp
  have n: "network sa = network s" using A1 by (rule step_network)
  from step_trans [OF A1 B] n
  show "step ({?k} \<union> tree_keys (network s) entry) (\<lambda>p. p) s s1"
    by simp
  show "v_map v1 = v_map v" "v_bits v1 = v_bits v" using A v1 by simp_all
  have "?k \<notin> tree_keys (network sa) entry" by (simp add: tree_keys_def)
  from step_staged [OF B this] A
  show "staged s1 m ?k = (if db_get (db s) ?k = None then staged s m ?k else None)"
    by simp
qed


subsection \<open>connectBlock and disconnectBlock\<close>

lemma block_keys_sub:
  "index_tables \<subseteq> block_keys net entry bits"
  "keys_of {''c''} \<union> (if bits then {K_f} else {}) \<subseteq> block_keys net entry bits"
  "{K_w (e_height entry)} \<union> tree_keys net entry \<subseteq> block_keys net entry bits"
  "{} \<subseteq> block_keys net entry bits"
  by (auto simp: block_keys_def)

lemma coin_key_notin:
  "k \<in> keys_of {''c''} \<Longrightarrow> k \<notin> index_tables"
  "k \<in> keys_of {''c''} \<Longrightarrow> k \<noteq> K_f"
  "k \<in> keys_of {''c''} \<Longrightarrow> k \<notin> {K_w i} \<union> tree_keys net entry"
  "k \<in> keys_of {''c''} \<Longrightarrow> k \<notin> keys_of {''v''}"
  "k \<in> keys_of {''c''} \<Longrightarrow> k \<noteq> K_R"
  "k \<in> keys_of {''c''} \<Longrightarrow> k \<noteq> K_h x \<and> k \<noteq> K_e x \<and> k \<noteq> K_p x \<and> k \<noteq> K_n x \<and> k \<noteq> K_H i"
  by (auto simp: keys_of_def index_tables_def tree_keys_def tbl_def)

lemma connectBlock_step:
  assumes ok: "connectBlock entry blk v s = (Inr (), s1)" and spv: "\<not> opt_spv (options s)"
  shows "step (block_keys (network s) entry (v_bits v \<noteq> []))
           (cs_shift (int (length (b_txs blk)))
              (outs_coin (blk_outputs blk) - ins_coin (map (view_getOutput v) (blk_inputs blk)))
              (outs_value (blk_outputs blk) - ins_value (map (view_getOutput v) (blk_inputs blk)))
              (outs_burned (blk_outputs blk))) s s1"
    and "k \<in> keys_of {''c''} \<Longrightarrow>
           staged s1 m k = apply_ops_at k (saveView_ops v) (staged s m k)"
proof -
  let ?K = "block_keys (network s) entry (v_bits v \<noteq> [])"
  from ok spv have "thenE (with_pending (\<lambda>pd. cs_connect pd blk) s) (\<lambda>s1.
        thenE (forE (connect_tx entry v) (enumerate 0 (b_txs blk)) s1) (\<lambda>s2.
        thenE (saveView v s2) (\<lambda>s3.
        thenE (if v_undo v \<noteq> [] then blocksBatch_write (WriteUndo (b_hash blk) (undo_commit (v_undo v))) s3
               else (Inr (), s3)) (\<lambda>s4.
        thenE (pruneBlock entry s4) (connectNames v entry))))) = (Inr (), s1)"
    by (simp add: connectBlock_def)
  then obtain sa where a: "with_pending (\<lambda>pd. cs_connect pd blk) s = (Inr (), sa)"
    and r1: "thenE (forE (connect_tx entry v) (enumerate 0 (b_txs blk)) sa) (\<lambda>s2.
        thenE (saveView v s2) (\<lambda>s3.
        thenE (if v_undo v \<noteq> [] then blocksBatch_write (WriteUndo (b_hash blk) (undo_commit (v_undo v))) s3
               else (Inr (), s3)) (\<lambda>s4.
        thenE (pruneBlock entry s4) (connectNames v entry)))) = (Inr (), s1)"
    by (rule thenE_okD)
  from r1 obtain sb where b: "forE (connect_tx entry v) (enumerate 0 (b_txs blk)) sa = (Inr (), sb)"
    and r2: "thenE (saveView v sb) (\<lambda>s3.
        thenE (if v_undo v \<noteq> [] then blocksBatch_write (WriteUndo (b_hash blk) (undo_commit (v_undo v))) s3
               else (Inr (), s3)) (\<lambda>s4.
        thenE (pruneBlock entry s4) (connectNames v entry))) = (Inr (), s1)"
    by (rule thenE_okD)
  from r2 obtain sc where c: "saveView v sb = (Inr (), sc)"
    and r3: "thenE (if v_undo v \<noteq> [] then blocksBatch_write (WriteUndo (b_hash blk) (undo_commit (v_undo v))) sc
               else (Inr (), sc)) (\<lambda>s4.
        thenE (pruneBlock entry s4) (connectNames v entry)) = (Inr (), s1)"
    by (rule thenE_okD)
  from r3 obtain sd where d: "(if v_undo v \<noteq> [] then blocksBatch_write (WriteUndo (b_hash blk) (undo_commit (v_undo v))) sc
               else (Inr (), sc)) = (Inr (), sd)"
    and r4: "thenE (pruneBlock entry sd) (connectNames v entry) = (Inr (), s1)"
    by (rule thenE_okD)
  from r4 obtain se where e: "pruneBlock entry sd = (Inr (), se)"
    and f: "connectNames v entry se = (Inr (), s1)"
    by (rule thenE_okD)
  have A: "step {} (cs_shift (int (length (b_txs blk))) 0 0 0) s sa"
    using with_pending_step [OF a] by (simp add: cs_connect_shift)
  note B = connect_txs_step [OF b]
  note C = saveView_step(1) [OF c]
  have D: "step {} (\<lambda>p. p) sc sd"
    using d by (auto split: if_splits intro: blocksBatch_write_step)
  note E = pruneBlock_step [OF e, of "{}"]
  note AB = step_shift_in [OF A B block_keys_sub(4) block_keys_sub(1),
      of "network s" entry "v_bits v \<noteq> []"]
  note AC = step_quiet_in [OF AB C subset_refl block_keys_sub(2)]
  note AD = step_quiet_in [OF AC D subset_refl block_keys_sub(4)]
  note AE = step_quiet_in [OF AD E subset_refl block_keys_sub(4)]
  have n: "network se = network s" using AE by (rule step_network)
  note F = connectNames_step [OF f, unfolded n]
  from step_quiet_in [OF AE F subset_refl block_keys_sub(3)]
  show "step ?K
           (cs_shift (int (length (b_txs blk)))
              (outs_coin (blk_outputs blk) - ins_coin (map (view_getOutput v) (blk_inputs blk)))
              (outs_value (blk_outputs blk) - ins_value (map (view_getOutput v) (blk_inputs blk)))
              (outs_burned (blk_outputs blk))) s s1"
    by simp
  show "staged s1 m k = apply_ops_at k (saveView_ops v) (staged s m k)"
    if ck: "k \<in> keys_of {''c''}"
  proof -
    have "staged sb m k = staged s m k"
      using step_staged [OF A, of k m] step_staged [OF B coin_key_notin(1) [OF ck], of m]
      by simp
    moreover have "staged s1 m k = staged sc m k"
      using step_staged [OF D, of k m] step_staged [OF E, of k m]
        step_staged [OF F coin_key_notin(3) [OF ck], of m]
      by simp
    ultimately show ?thesis
      using saveView_step(2) [OF c coin_key_notin(2) [OF ck], of m] by simp
  qed
qed

lemma disconnectBlock_step:
  assumes ok: "disconnectBlock entry blk s = (Inr v1, s1)" and spv: "\<not> opt_spv (options s)"
  shows "\<exists>undo. getUndoCoins (b_hash blk) s = Inr undo
           \<and> step (block_keys (network s) entry (v_bits v1 \<noteq> []))
               (cs_shift (- int (length (b_txs blk)))
                  (undo_coin undo - outs_coin (blk_outputs blk))
                  (undo_value undo - outs_value (blk_outputs blk))
                  (- outs_burned (blk_outputs blk))) s s1"
    and "staged s1 m (K_w (e_height entry))
           = (if db_get (db s) (K_w (e_height entry)) = None
              then staged s m (K_w (e_height entry)) else None)"
    and "k \<in> keys_of {''c''} \<Longrightarrow>
           staged s1 m k = apply_ops_at k (saveView_ops v1) (staged s m k)"
proof -
  let ?K = "block_keys (network s) entry (v_bits v1 \<noteq> [])"
  let ?kw = "K_w (e_height entry)"
  from ok spv obtain undo where g: "getUndoCoins (b_hash blk) s = Inr undo"
    by (cases "getUndoCoins (b_hash blk) s") (simp_all add: disconnectBlock_def)
  from ok spv g have "bindE (with_pending (\<lambda>pd. cs_disconnect pd blk) s) (\<lambda>_ s1.
             bindE (disconnect_txs entry blk undo s1) (\<lambda>uv s2.
               if fst uv \<noteq> [] then (Inl (AssertionError ''Undo coins data inconsistency.''), s2)
               else
                 bindE (saveView (snd uv) s2) (\<lambda>_ s3.
                 bindE (blocksBatch_prune (PruneUndo (b_hash blk)) s3) (\<lambda>_ s4.
                   disconnectNames (snd uv) entry s4)))) = (Inr v1, s1)"
    by (simp add: disconnectBlock_def)
  then obtain u1 sa where a: "with_pending (\<lambda>pd. cs_disconnect pd blk) s = (Inr u1, sa)"
    and r1: "bindE (disconnect_txs entry blk undo sa) (\<lambda>uv s2.
               if fst uv \<noteq> [] then (Inl (AssertionError ''Undo coins data inconsistency.''), s2)
               else
                 bindE (saveView (snd uv) s2) (\<lambda>_ s3.
                 bindE (blocksBatch_prune (PruneUndo (b_hash blk)) s3) (\<lambda>_ s4.
                   disconnectNames (snd uv) entry s4))) = (Inr v1, s1)"
    by (rule bindE_okD)
  from r1 obtain uv sb where b: "disconnect_txs entry blk undo sa = (Inr uv, sb)"
    and r2: "(if fst uv \<noteq> [] then (Inl (AssertionError ''Undo coins data inconsistency.''), sb)
               else
                 bindE (saveView (snd uv) sb) (\<lambda>_ s3.
                 bindE (blocksBatch_prune (PruneUndo (b_hash blk)) s3) (\<lambda>_ s4.
                   disconnectNames (snd uv) entry s4))) = (Inr v1, s1)"
    by (rule bindE_okD)
  from r2 have e: "fst uv = []"
    by (cases "fst uv = []") simp_all
  with r2 have "bindE (saveView (snd uv) sb) (\<lambda>_ s3.
                 bindE (blocksBatch_prune (PruneUndo (b_hash blk)) s3) (\<lambda>_ s4.
                   disconnectNames (snd uv) entry s4)) = (Inr v1, s1)"
    by simp
  then obtain u2 sc where c: "saveView (snd uv) sb = (Inr u2, sc)"
    and r3: "bindE (blocksBatch_prune (PruneUndo (b_hash blk)) sc) (\<lambda>_ s4.
                   disconnectNames (snd uv) entry s4) = (Inr v1, s1)"
    by (rule bindE_okD)
  from r3 obtain u3 sd where d: "blocksBatch_prune (PruneUndo (b_hash blk)) sc = (Inr u3, sd)"
    and f: "disconnectNames (snd uv) entry sd = (Inr v1, s1)"
    by (rule bindE_okD)
  have A: "step {} (cs_shift (- int (length (b_txs blk))) 0 0 0) s sa"
    using with_pending_step [OF a] by (simp add: cs_disconnect_shift)
  from disconnect_txs_shift [OF b] e
  have B: "step index_tables
               (cs_shift 0 (undo_coin undo - outs_coin (blk_outputs blk))
                  (undo_value undo - outs_value (blk_outputs blk))
                  (- outs_burned (blk_outputs blk))) sa sb"
    by auto
  have c': "saveView (snd uv) sb = (Inr (), sc)" using c by simp
  note F0 = disconnectNames_step [OF f]
  have vb: "v_bits (snd uv) = v_bits v1" and vm: "v_map (snd uv) = v_map v1"
    using F0(2,3) by simp_all
  note C = saveView_step(1) [OF c', unfolded vb]
  note D = blocksBatch_prune_step [OF d, of "{}"]
  note AB = step_shift_in [OF A B block_keys_sub(4) block_keys_sub(1),
      of "network s" entry "v_bits v1 \<noteq> []"]
  note AC = step_quiet_in [OF AB C subset_refl block_keys_sub(2)]
  note AD = step_quiet_in [OF AC D subset_refl block_keys_sub(4)]
  have n: "network sd = network s" using AD by (rule step_network)
  have dbd: "db sd = db s" using AD by (rule step_db)
  note F = disconnectNames_step [OF f, unfolded n]
  have "step ?K
               (cs_shift (- int (length (b_txs blk)))
                  (undo_coin undo - outs_coin (blk_outputs blk))
                  (undo_value undo - outs_value (blk_outputs blk))
                  (- outs_burned (blk_outputs blk))) s s1"
    using step_quiet_in [OF AD F(1) subset_refl block_keys_sub(3)] by simp
  with g show "\<exists>undo. getUndoCoins (b_hash blk) s = Inr undo
           \<and> step ?K
               (cs_shift (- int (length (b_txs blk)))
                  (undo_coin undo - outs_coin (blk_outputs blk))
                  (undo_value undo - outs_value (blk_outputs blk))
                  (- outs_burned (blk_outputs blk))) s s1"
    by blast
  show "staged s1 m k = apply_ops_at k (saveView_ops v1) (staged s m k)"
    if ck: "k \<in> keys_of {''c''}"
  proof -
    have so: "saveView_ops (snd uv) = saveView_ops v1"
      using vm by (simp add: saveView_ops_def)
    have "staged sb m k = staged s m k"
      using step_staged [OF A, of k m] step_staged [OF B coin_key_notin(1) [OF ck], of m]
      by simp
    moreover have "staged s1 m k = staged sc m k"
      using step_staged [OF D, of k m] step_staged [OF F(1) coin_key_notin(3) [OF ck], of m]
      by simp
    ultimately show ?thesis
      using saveView_step(2) [OF c' coin_key_notin(2) [OF ck], of m] so by simp
  qed
  have k1: "?kw \<notin> {}" by simp
  have k2: "?kw \<notin> index_tables" by (simp add: index_tables_def keys_of_def tbl_def)
  have k3: "?kw \<notin> keys_of {''c''} \<union> (if v_bits v1 \<noteq> [] then {K_f} else {})"
    by (simp add: keys_of_def tbl_def)
  have "staged sd m ?kw = staged s m ?kw"
    using step_staged [OF A k1, of m] step_staged [OF B k2, of m] step_staged [OF C k3, of m]
      step_staged [OF D k1, of m]
    by simp
  with F(4) [of m] dbd
  show "staged s1 m ?kw = (if db_get (db s) ?kw = None then staged s m ?kw else None)"
    by simp
qed

lemma pending_commit_step:
  assumes "pending_commit h s = (Inr (), s1)"
  shows "step {K_R} (\<lambda>p. p\<lparr>cs_tip := h, cs_committed := True\<rparr>) s s1"
    and "\<exists>p. pending s = Some p
           \<and> staged s1 m K_R = Some (cs_encode (p\<lparr>cs_tip := h, cs_committed := True\<rparr>))"
proof -
  from assms obtain p where p: "pending s = Some p"
    by (auto simp: pending_commit_def split: option.splits)
  let ?p1 = "p\<lparr>cs_tip := h, cs_committed := True\<rparr>"
  let ?s0 = "s\<lparr>pending := Some ?p1\<rparr>"
  from assms p have q: "put K_R (cs_encode ?p1) ?s0 = (Inr (), s1)"
    by (simp add: pending_commit_def cs_commit_def Let_def)
  have P: "step {K_R} (\<lambda>p. p\<lparr>cs_tip := h, cs_committed := True\<rparr>) s ?s0"
    by (rule step_same_current) (simp_all add: body_frame_def p)
  from step_trans [OF P put_step [OF q]]
  show "step {K_R} (\<lambda>p. p\<lparr>cs_tip := h, cs_committed := True\<rparr>) s s1" by simp
  from put_staged(1) [OF q, of m K_R] p
  show "\<exists>p. pending s = Some p
           \<and> staged s1 m K_R = Some (cs_encode (p\<lparr>cs_tip := h, cs_committed := True\<rparr>))"
    by simp
qed

section \<open>Value accounting of connectBlock\<close>

lemma out_value_credit: "out_value out = value_credit out"
  using claim_not_locked [of "o_covenant out"]
  by (auto simp: out_value_def value_credit_def credited_def)

lemma outs_value_credit: "outs_value outs = sum_list (map value_credit outs)"
proof -
  have "out_value = value_credit" by (rule ext) (rule out_value_credit)
  then show ?thesis by (simp add: outs_value_def)
qed

text \<open>
  C6 (amended). On a node that is not in SPV mode, a \<open>connectBlock\<close> that completes has
  moved the pending value counter by the values that the outputs of the block add less
  the values of the coins that its inputs spend; a spendable output whose covenant is a
  CLAIM adds its value exactly when the u32 at index 5 of the covenant is 1, and
  nothing with any other value there (\<open>value_credit\<close>). In SPV mode \<open>connectBlock\<close>
  returns before it looks at any output and the counter is as it was.
\<close>

theorem connectBlock_claim_value:
  assumes ok: "connectBlock entry blk v s = (Inr (), s1)" and p: "pending s = Some p"
  shows "\<exists>p1. pending s1 = Some p1
           \<and> cs_value p1 =
               (if opt_spv (options s) then cs_value p
                else cs_value p + sum_list (map value_credit (blk_outputs blk))
                       - ins_value (map (view_getOutput v) (blk_inputs blk)))"
proof (cases "opt_spv (options s)")
  case True
  with ok have "s1 = s" by (simp add: connectBlock_def)
  with p True show ?thesis by simp
next
  case False
  from step_pending [OF connectBlock_step(1) [OF ok False]] p False show ?thesis
    by (simp add: cs_shift_def outs_value_credit)
qed

lemmas connect_defs = connectBlock_def connect_tx_def connect_input_def connect_output_def
  indexTX_def saveView_def saveView_ops_def run_op_def pruneBlock_def connectNames_def
  saveNames'_def toNameUndo_def with_pending_def cs_connect_def cs_add_def cs_spend_def
  cs_burn_def isRegister_def isClaim_def locked_def types_NONE_def types_CLAIM_def
  types_REGISTER_def types_REVOKE_def bits_commit_def ce_encode_def thenE_def bindE_def

lemma claim_u32: "getU32 (o_covenant (claim_output 1)) 5 = Inr 1"
  "getU32 (o_covenant (claim_output 2)) 5 = Inr 2"
  by (simp_all add: claim_output_def getU32_def u32le_def le32_def)

lemma sample_outputs:
  "\<not> o_unspendable (claim_output n)" "ctype (o_covenant (claim_output n)) = types_CLAIM"
  "o_value (claim_output n) = 70" "o_address (claim_output n) = Some [3]"
  "\<not> o_unspendable (plain_output v a)" "ctype (o_covenant (plain_output v a)) = types_NONE"
  "o_value (plain_output v a) = v" "o_address (plain_output v a) = Some a"
  by (simp_all add: claim_output_def plain_output_def)

lemma claim_credit:
  "value_credit (claim_output 1) = 70" "value_credit (claim_output 2) = 0"
  "value_credit (plain_output 50 a) = 50"
  by (simp_all add: value_credit_def claim_u32 isClaim_def locked_def sample_outputs
        types_CLAIM_def types_NONE_def types_REGISTER_def)

lemma c6_ok: "fst (connectBlock e13 blk_claims view_claims (snd (start tip12_state))) = Inr ()"
  by (simp add: connect_defs claim_u32 sample_outputs blk_claims_def tx_claims_def
        view_claims_def e13_def tip12_state_def sample_defs batch_defs coins_fromTX_def)

lemma c6_pending:
  "pending (snd (start tip12_state))
     = Some \<lparr>cs_tip = [12], cs_tx = 5, cs_coin = 1, cs_value = 100, cs_burned = 0,
              cs_committed = False\<rparr>"
  "\<not> opt_spv (options (snd (start tip12_state)))"
  by (simp_all add: tip12_state_def sample_defs batch_defs)

lemma c6_sums:
  "sum_list (map value_credit (blk_outputs blk_claims)) = 120"
  "ins_value (map (view_getOutput view_claims) (blk_inputs blk_claims)) = 0"
  by (simp_all add: claim_credit blk_outputs_def blk_inputs_def blk_claims_def tx_claims_def)

theorem connectBlock_claim_value_witness:
  "fst (connectBlock e13 blk_claims view_claims (snd (start tip12_state))) = Inr ()
   \<and> map_option cs_value (pending (snd (connectBlock e13 blk_claims view_claims
         (snd (start tip12_state))))) = Some 220"
proof -
  let ?s1 = "snd (connectBlock e13 blk_claims view_claims (snd (start tip12_state)))"
  have ok: "connectBlock e13 blk_claims view_claims (snd (start tip12_state)) = (Inr (), ?s1)"
    using c6_ok by (metis prod.collapse)
  from connectBlock_claim_value [OF ok c6_pending(1)] obtain p1 where
    "pending ?s1 = Some p1" and "cs_value p1 = 100 + 120 - 0"
    by (auto simp: c6_pending(2) c6_sums)
  with c6_ok show ?thesis by simp
qed

text \<open>
  C6 as stated fails on an SPV node: the block pays a spendable claim whose u32 at index
  5 is 1, \<open>connectBlock\<close> completes, and the pending value counter has not moved.
\<close>

theorem connectBlock_spv_counterexample:
  "claim_output 1 \<in> set (blk_outputs blk_claims)
   \<and> \<not> o_unspendable (claim_output 1) \<and> isClaim (o_covenant (claim_output 1))
   \<and> getU32 (o_covenant (claim_output 1)) 5 = Inr 1
   \<and> fst (connectBlock e13 blk_claims view_claims (snd (start spv_state))) = Inr ()
   \<and> map_option cs_value (pending (snd (start spv_state))) = Some 100
   \<and> map_option cs_value (pending (snd (connectBlock e13 blk_claims view_claims
         (snd (start spv_state))))) = Some 100"
  by (simp add: claim_u32 sample_outputs isClaim_def blk_outputs_def blk_claims_def
        tx_claims_def connectBlock_def spv_state_def tip12_state_def sample_defs batch_defs)


end
